theory Spec2Isabelle
  imports Main "HOL-Library.Sublist" "HOL-Library.List_Lexorder" "HOL-Library.AList"
begin

section \<open>The document tree of src/utils/markdown.ts\<close>

text \<open>
  The passes of \<^verbatim>\<open>src/utils/markdown.ts\<close> rewrite a hast/unist tree; an older copy
  of the file (src/unnamed/part_000) has the same \<^verbatim>\<open>wrapLinksInSpans\<close>,
  \<^verbatim>\<open>addLeadToFirstParagraph\<close> and \<^verbatim>\<open>getOnlyFirstPara\<close> and another \<^verbatim>\<open>fixSvgPaths\<close>.
  The passes assign to the nodes they are given; a tree shares no node between two
  parents, so each pass is written as a function from the tree to the new tree. A JavaScript
  string is a sequence of UTF-16 code units; here it is a \<^typ>\<open>string\<close>, one
  \<^typ>\<open>char\<close> for each code unit below 256. A property bag (a JavaScript object with
  string keys) is an association list in insertion order: \<^const>\<open>AList.update\<close> overwrites
  the value of a key that is present in place and appends a new key, as an object
  spread followed by an assignment does (keys that are array indices, which JavaScript
  enumerates first, are not told apart). A transformer that returns nothing leaves the
  tree it was given, with the assignments made to it, in place.
\<close>

datatype error = TypeError | ExternalError string

datatype propval = PStr string | PList "string list"

type_synonym props = "(string \<times> propval) list"

text \<open>
  \<^verbatim>\<open>HtmlNode\<close> (type 'element'), \<^verbatim>\<open>MdxNode\<close> (type 'mdxJsxTextElement'), the root
  (type 'root') and \<^verbatim>\<open>TextNode\<close> (type 'text'). The fields \<^verbatim>\<open>properties\<close> and
  \<^verbatim>\<open>children\<close> are optional in the interfaces, hence the options.
\<close>

datatype node =
    Element string "props option" "node list option"
  | MdxJsxTextElement string "props option" "node list option"
  | Root "node list"
  | Text string

fun childrenOf :: "node \<Rightarrow> node list option" where
  "childrenOf (Element tagName ps cs) = cs"
| "childrenOf (MdxJsxTextElement nm ps cs) = cs"
| "childrenOf (Root ks) = Some ks"
| "childrenOf (Text v) = None"

fun withChildren :: "node \<Rightarrow> node list \<Rightarrow> node" where
  "withChildren (Element tagName ps cs) ks = Element tagName ps (Some ks)"
| "withChildren (MdxJsxTextElement nm ps cs) ks = MdxJsxTextElement nm ps (Some ks)"
| "withChildren (Root js) ks = Root ks"
| "withChildren (Text v) ks = Text v"

fun isElement :: "node \<Rightarrow> bool" where
  "isElement (Element tagName ps cs) = True"
| "isElement n = False"

fun isAnchorNode :: "node \<Rightarrow> bool" where
  "isAnchorNode (Element tagName ps cs) = (tagName = ''a'')"
| "isAnchorNode n = False"

fun isPNode :: "node \<Rightarrow> bool" where
  "isPNode (Element tagName ps cs) = (tagName = ''p'')"
| "isPNode n = False"

fun isImgNode :: "node \<Rightarrow> bool" where
  "isImgNode (Element tagName ps cs) = (tagName = ''img'')"
| "isImgNode n = False"

fun isMdxPNode :: "node \<Rightarrow> bool" where
  "isMdxPNode (MdxJsxTextElement nm ps cs) = (nm = ''p'')"
| "isMdxPNode n = False"

fun isPathNode :: "node \<Rightarrow> bool" where
  "isPathNode (Element tagName ps cs) = (tagName = ''path'')"
| "isPathNode n = False"

definition isParentNode :: "node \<Rightarrow> bool" where
  "isParentNode n = (childrenOf n \<noteq> None)"

text \<open>\<^verbatim>\<open>node.properties?.key\<close>: undefined when the bag or the key is absent.\<close>

definition getProp :: "props option \<Rightarrow> string \<Rightarrow> propval option" where
  "getProp ps key = (case ps of None \<Rightarrow> None | Some p \<Rightarrow> map_of p key)"

text \<open>\<^verbatim>\<open>{...a}\<close> of an optional bag, and \<^verbatim>\<open>{...a, ...b}\<close>.\<close>

definition spread :: "props option \<Rightarrow> props" where
  "spread ps = (case ps of None \<Rightarrow> [] | Some p \<Rightarrow> p)"

definition merge :: "props \<Rightarrow> props \<Rightarrow> props" where
  "merge a b = fold (\<lambda>(k, v). AList.update k v) b a"

subsection \<open>Positions in a tree\<close>

text \<open>
  A position is the list of child indices from the root. Pre-order document order on
  positions is the lexicographic order on lists (HOL-Library.List_Lexorder): an ancestor
  comes before its descendants, an earlier sibling's subtree before a later sibling.
\<close>

fun nodeAt :: "node \<Rightarrow> nat list \<Rightarrow> node option" where
  "nodeAt n [] = Some n"
| "nodeAt n (i # p) =
     (case childrenOf n of
        None \<Rightarrow> None
      | Some ks \<Rightarrow> if i < length ks then nodeAt (ks ! i) p else None)"

fun replaceAt :: "node \<Rightarrow> nat list \<Rightarrow> node \<Rightarrow> node" where
  "replaceAt n [] x = x"
| "replaceAt n (i # p) x =
     (case childrenOf n of
        None \<Rightarrow> n
      | Some ks \<Rightarrow> if i < length ks then withChildren n (ks[i := replaceAt (ks ! i) p x]) else n)"

section \<open>JavaScript strings\<close>

text \<open>The white space of \<^verbatim>\<open>\s\<close> and \<^verbatim>\<open>trim\<close> among the code units below 256.\<close>

definition isWhitespace :: "char \<Rightarrow> bool" where
  "isWhitespace c = (of_char c \<in> {9, 10, 11, 12, 13, 32, 160 :: nat})"

definition isDigit :: "char \<Rightarrow> bool" where
  "isDigit c = (48 \<le> (of_char c :: nat) \<and> (of_char c :: nat) \<le> 57)"

definition digitValue :: "char \<Rightarrow> int" where
  "digitValue c = int (of_char c) - 48"

definition digitChar :: "nat \<Rightarrow> char" where
  "digitChar d = char_of (48 + d)"

definition lowerChar :: "char \<Rightarrow> char" where
  "lowerChar c =
     (let k = (of_char c :: nat)
      in if (65 \<le> k \<and> k \<le> 90) \<or> (192 \<le> k \<and> k \<le> 222 \<and> k \<noteq> 215)
         then char_of (k + 32) else c)"

definition toLowerCase :: "string \<Rightarrow> string" where
  "toLowerCase s = map lowerChar s"

definition startsWith :: "string \<Rightarrow> string \<Rightarrow> bool" where
  "startsWith s p = (take (length p) s = p)"

definition substr :: "string \<Rightarrow> nat \<Rightarrow> string" where
  "substr s i = drop i s"

definition trim :: "string \<Rightarrow> string" where
  "trim s = rev (dropWhile isWhitespace (rev (dropWhile isWhitespace s)))"

text \<open>\<^verbatim>\<open>s.split(sep)\<close> for a one-character separator: never empty, \<^verbatim>\<open>''.split(sep)\<close> is \<^verbatim>\<open>['']\<close>.\<close>

fun split :: "char \<Rightarrow> string \<Rightarrow> string list" where
  "split sep [] = [[]]"
| "split sep (c # cs) =
     (if c = sep then [] # split sep cs
      else (case split sep cs of
              [] \<Rightarrow> [[c]]
            | w # ws \<Rightarrow> (c # w) # ws))"

text \<open>
  \<^verbatim>\<open>parseInt(s, 10)\<close>: leading white space, an optional sign, the longest run of decimal
  digits; \<^verbatim>\<open>NaN\<close> (here \<^const>\<open>None\<close>) when there is no digit.
\<close>

definition parseInt :: "string \<Rightarrow> int option" where
  "parseInt s =
     (let s1 = dropWhile isWhitespace s;
          neg = startsWith s1 ''-'';
          s2 = (if startsWith s1 ''-'' \<or> startsWith s1 ''+'' then drop 1 s1 else s1);
          ds = takeWhile isDigit s2
      in if ds = [] then None
         else let n = foldl (\<lambda>acc c. 10 * acc + digitValue c) 0 ds
              in Some (if neg then - n else n))"

text \<open>The decimal rendering of an integer in a template literal.\<close>

function showNat :: "nat \<Rightarrow> string" where
  "showNat n = (if n < 10 then [digitChar n] else showNat (n div 10) @ [digitChar (n mod 10)])"
  by pat_completeness auto
termination
  by (relation "measure id") auto

declare showNat.simps [simp del]

definition showInt :: "int \<Rightarrow> string" where
  "showInt i = (if i < 0 then CHR ''-'' # showNat (nat (- i)) else showNat (nat i))"

text \<open>\<^verbatim>\<open>s.replace(/\s+/g, ' ')\<close>: every maximal run of white space becomes one space.\<close>

function collapseWhitespace :: "string \<Rightarrow> string" where
  "collapseWhitespace [] = []"
| "collapseWhitespace (c # cs) =
     (if isWhitespace c then CHR '' '' # collapseWhitespace (dropWhile isWhitespace cs)
      else c # collapseWhitespace cs)"
  by pat_completeness auto
termination
  by (relation "measure length") (auto simp: length_dropWhile_le less_Suc_eq_le)

text \<open>\<^verbatim>\<open>s.replaceAll('\n', ' ')\<close>, the older variant of the same pass (src/unnamed/part_000).\<close>

definition replaceAllNewlines :: "string \<Rightarrow> string" where
  "replaceAllNewlines s = map (\<lambda>c. if c = CHR 0x0A then CHR '' '' else c) s"

section \<open>Traversals\<close>

text \<open>Sequential mapping with a state and with failure: the first error ends the run.\<close>

primrec traverse :: "('a \<Rightarrow> 's \<Rightarrow> error + ('b \<times> 's)) \<Rightarrow> 'a list \<Rightarrow> 's \<Rightarrow> error + ('b list \<times> 's)" where
  "traverse f [] s = Inr ([], s)"
| "traverse f (x # xs) s =
     (case f x s of
        Inl e \<Rightarrow> Inl e
      | Inr (y, s1) \<Rightarrow>
          (case traverse f xs s1 of
             Inl e \<Rightarrow> Inl e
           | Inr (ys, s2) \<Rightarrow> Inr (y # ys, s2)))"

lemma traverse_cong [fundef_cong]:
  "xs = ys \<Longrightarrow> s = t \<Longrightarrow> (\<And>x u. x \<in> set ys \<Longrightarrow> f x u = g x u)
    \<Longrightarrow> traverse f xs s = traverse g ys t"
  by (induction ys arbitrary: xs s t) (auto split: sum.splits)

primrec mapE :: "('a \<Rightarrow> error + 'b) \<Rightarrow> 'a list \<Rightarrow> error + 'b list" where
  "mapE f [] = Inr []"
| "mapE f (x # xs) =
     (case f x of
        Inl e \<Rightarrow> Inl e
      | Inr y \<Rightarrow> (case mapE f xs of Inl e \<Rightarrow> Inl e | Inr ys \<Rightarrow> Inr (y # ys)))"

lemma mapE_cong [fundef_cong]:
  "xs = ys \<Longrightarrow> (\<And>x. x \<in> set ys \<Longrightarrow> f x = g x) \<Longrightarrow> mapE f xs = mapE g ys"
  by (induction ys arbitrary: xs) (auto split: sum.splits)

text \<open>
  Modelled from the spec: \<^verbatim>\<open>visit(tree, test, visitor)\<close> is imported from
  unist-util-visit and is not under src/. It is the visit-all traversal of the spec
  (4.2): depth first, parent before children, the visitor called on every node that
  passes the test, nodes without children being leaves. Both tests of this file
  (\<^verbatim>\<open>'element'\<close> and \<^verbatim>\<open>isImgNode\<close>) select elements only. The visitors assign to the
  \<^verbatim>\<open>tagName\<close> and the \<^verbatim>\<open>properties\<close> of the node they are given and to a variable of
  the enclosing function (the state \<^typ>\<open>'s\<close>), and they may throw, which ends the
  traversal.
\<close>

fun visit :: "(node \<Rightarrow> bool) \<Rightarrow> (string \<Rightarrow> props option \<Rightarrow> 's \<Rightarrow> error + ((string \<times> props option) \<times> 's))
    \<Rightarrow> node \<Rightarrow> 's \<Rightarrow> error + (node \<times> 's)" where
  "visit test f (Element tagName ps cs) s =
     (case (if test (Element tagName ps cs) then f tagName ps s else Inr ((tagName, ps), s)) of
        Inl e \<Rightarrow> Inl e
      | Inr ((tagName', ps'), s1) \<Rightarrow>
          (case cs of
             None \<Rightarrow> Inr (Element tagName' ps' None, s1)
           | Some ks \<Rightarrow>
               (case traverse (visit test f) ks s1 of
                  Inl e \<Rightarrow> Inl e
                | Inr (ks', s2) \<Rightarrow> Inr (Element tagName' ps' (Some ks'), s2))))"
| "visit test f (MdxJsxTextElement nm ps cs) s =
     (case cs of
        None \<Rightarrow> Inr (MdxJsxTextElement nm ps None, s)
      | Some ks \<Rightarrow>
          (case traverse (visit test f) ks s of
             Inl e \<Rightarrow> Inl e
           | Inr (ks', s2) \<Rightarrow> Inr (MdxJsxTextElement nm ps (Some ks'), s2)))"
| "visit test f (Root ks) s =
     (case traverse (visit test f) ks s of
        Inl e \<Rightarrow> Inl e
      | Inr (ks', s2) \<Rightarrow> Inr (Root ks', s2))"
| "visit test f (Text v) s = Inr (Text v, s)"

section \<open>The passes\<close>

subsection \<open>wrapLinksInSpans\<close>

definition innerLink :: "node \<Rightarrow> node" where
  "innerLink node = Element ''span'' (Some [(''class'', PStr ''inner-link'')]) (Some [node])"

fun wrapLinksInSpans :: "node \<Rightarrow> node" where
  "wrapLinksInSpans (Element tagName ps cs) =
     (if isAnchorNode (Element tagName ps cs) then innerLink (Element tagName ps cs)
      else Element tagName ps (map_option (map wrapLinksInSpans) cs))"
| "wrapLinksInSpans (MdxJsxTextElement nm ps cs) =
     MdxJsxTextElement nm ps (map_option (map wrapLinksInSpans) cs)"
| "wrapLinksInSpans (Root ks) = Root (map wrapLinksInSpans ks)"
| "wrapLinksInSpans (Text v) = Text v"

subsection \<open>fixSvgPaths\<close>

text \<open>
  \<^verbatim>\<open>node.properties.d.replace(...)\<close> is guarded by the truthiness of \<^verbatim>\<open>d\<close> only: an
  array (always truthy) has no \<^verbatim>\<open>replace\<close> method, which throws a TypeError.
\<close>

fun fixSvgPaths :: "node \<Rightarrow> error + node" where
  "fixSvgPaths (Element tagName ps cs) =
     (if isPathNode (Element tagName ps cs) then
        (case getProp ps ''d'' of
           None \<Rightarrow> Inr (Element tagName ps cs)
         | Some (PList ds) \<Rightarrow> Inl TypeError
         | Some (PStr d) \<Rightarrow>
             if d \<noteq> [] then
               Inr (Element tagName
                 (Some (AList.update ''d'' (PStr (collapseWhitespace d)) (spread ps))) cs)
             else Inr (Element tagName ps cs))
      else (case cs of
              None \<Rightarrow> Inr (Element tagName ps None)
            | Some ks \<Rightarrow>
                (case mapE fixSvgPaths ks of
                   Inl e \<Rightarrow> Inl e
                 | Inr ks' \<Rightarrow> Inr (Element tagName ps (Some ks')))))"
| "fixSvgPaths (MdxJsxTextElement nm ps cs) =
     (case cs of
        None \<Rightarrow> Inr (MdxJsxTextElement nm ps None)
      | Some ks \<Rightarrow>
          (case mapE fixSvgPaths ks of
             Inl e \<Rightarrow> Inl e
           | Inr ks' \<Rightarrow> Inr (MdxJsxTextElement nm ps (Some ks'))))"
| "fixSvgPaths (Root ks) =
     (case mapE fixSvgPaths ks of Inl e \<Rightarrow> Inl e | Inr ks' \<Rightarrow> Inr (Root ks'))"
| "fixSvgPaths (Text v) = Inr (Text v)"

subsection \<open>imageAttributes\<close>

text \<open>
  \<^verbatim>\<open>.map((p) => p.split('=')).map(([key, val]) => [key.trim(), val.trim()])\<close>: a segment
  without \<^verbatim>\<open>=\<close> destructures \<^verbatim>\<open>val\<close> to undefined, and \<^verbatim>\<open>val.trim()\<close> throws.
  The filter on the key comes after this map. \<^verbatim>\<open>Object.fromEntries\<close> of the entries is
  \<^term>\<open>merge []\<close> of them.
\<close>

definition keyValue :: "string \<Rightarrow> error + (string \<times> propval)" where
  "keyValue p =
     (case split CHR ''='' p of
        key # val # rest \<Rightarrow> Inr (trim key, PStr (trim val))
      | _ \<Rightarrow> Inl TypeError)"

definition imageTitle :: "string \<Rightarrow> props option \<Rightarrow> unit \<Rightarrow> error + ((string \<times> props option) \<times> unit)" where
  "imageTitle tagName ps u =
     (case getProp ps ''title'' of
        Some (PStr title) \<Rightarrow>
          if startsWith title ''#'' then
            (case mapE keyValue (split CHR '';'' (drop 1 title)) of
               Inl e \<Rightarrow> Inl e
             | Inr entries \<Rightarrow>
                 Inr ((tagName,
                       Some (merge (spread ps)
                         (merge [] (filter (\<lambda>(key, val). key \<noteq> []) entries)))), u))
          else Inr ((tagName, ps), u)
      | _ \<Rightarrow> Inr ((tagName, ps), u))"

definition imageAttributes :: "node \<Rightarrow> error + node" where
  "imageAttributes tree =
     (case visit isImgNode imageTitle tree () of
        Inl e \<Rightarrow> Inl e
      | Inr (tree', u) \<Rightarrow> Inr tree')"

subsection \<open>addLeadToFirstParagraph\<close>

text \<open>
  \<^verbatim>\<open>run\<close> returns \<^verbatim>\<open>{found, node}\<close>; the accumulator of the \<^verbatim>\<open>reduce\<close> over the
  children is \<^verbatim>\<open>{found, children}\<close>. Both are pairs here.
\<close>

fun addLeadRun :: "node \<Rightarrow> bool \<times> node" where
  "addLeadRun (Element tagName ps cs) =
     (if isPNode (Element tagName ps cs) then
        (True, Element tagName (Some (AList.update ''class'' (PStr ''lead'') (spread ps))) cs)
      else (case cs of
              None \<Rightarrow> (False, Element tagName ps None)
            | Some ks \<Rightarrow>
                (let c = foldl (\<lambda>acc node.
                           if fst acc then (fst acc, snd acc @ [node])
                           else (let result = addLeadRun node
                                 in (fst result, snd acc @ [snd result])))
                         (False, []) ks
                 in (fst c, Element tagName ps (Some (snd c))))))"
| "addLeadRun (MdxJsxTextElement nm ps cs) =
     (case cs of
        None \<Rightarrow> (False, MdxJsxTextElement nm ps None)
      | Some ks \<Rightarrow>
          (let c = foldl (\<lambda>acc node.
                     if fst acc then (fst acc, snd acc @ [node])
                     else (let result = addLeadRun node
                           in (fst result, snd acc @ [snd result])))
                   (False, []) ks
           in (fst c, MdxJsxTextElement nm ps (Some (snd c)))))"
| "addLeadRun (Root ks) =
     (let c = foldl (\<lambda>acc node.
                if fst acc then (fst acc, snd acc @ [node])
                else (let result = addLeadRun node
                      in (fst result, snd acc @ [snd result])))
              (False, []) ks
      in (fst c, Root (snd c)))"
| "addLeadRun (Text v) = (False, Text v)"

definition addLeadToFirstParagraph :: "node \<Rightarrow> node" where
  "addLeadToFirstParagraph tree = snd (addLeadRun tree)"

subsection \<open>getOnlyFirstPara\<close>

text \<open>The transformer returns a node or undefined (\<^const>\<open>None\<close>).\<close>

definition getOnlyFirstPara :: "node \<Rightarrow> node option" where
  "getOnlyFirstPara tree =
     (if isPNode tree then Some tree
      else (case childrenOf tree of
              None \<Rightarrow> None
            | Some ks \<Rightarrow> find isPNode ks))"

subsection \<open>collapseParagraphs\<close>

fun collapseParagraphs :: "node \<Rightarrow> node" where
  "collapseParagraphs (Element tagName ps cs) =
     (if isPNode (Element tagName ps cs) then
        (case cs of
           Some [c] \<Rightarrow> if isPNode c \<or> isMdxPNode c then c else Element tagName ps cs
         | _ \<Rightarrow> Element tagName ps cs)
      else Element tagName ps (map_option (map collapseParagraphs) cs))"
| "collapseParagraphs (MdxJsxTextElement nm ps cs) =
     MdxJsxTextElement nm ps (map_option (map collapseParagraphs) cs)"
| "collapseParagraphs (Root ks) = Root (map collapseParagraphs ks)"
| "collapseParagraphs (Text v) = Text v"

subsection \<open>normalizeHeaders\<close>

text \<open>\<^verbatim>\<open>mostImportantHeading\<close> starts at \<^verbatim>\<open>Infinity\<close>.\<close>

datatype heading = Infinity | Level int

fun below :: "int \<Rightarrow> heading \<Rightarrow> bool" where
  "below l Infinity = True"
| "below l (Level m) = (l < m)"

definition findHeading :: "string \<Rightarrow> props option \<Rightarrow> heading \<Rightarrow> error + ((string \<times> props option) \<times> heading)" where
  "findHeading tagName ps mostImportantHeading =
     (if length tagName = 2 \<and> startsWith (toLowerCase tagName) ''h''
      then (case parseInt (substr tagName 1) of
              None \<Rightarrow> Inr ((tagName, ps), mostImportantHeading)
            | Some level \<Rightarrow>
                if below level mostImportantHeading
                then Inr ((tagName, ps), Level level)
                else Inr ((tagName, ps), mostImportantHeading))
      else Inr ((tagName, ps), mostImportantHeading))"

definition desiredHeading :: int where
  "desiredHeading = 2"

definition shiftHeading :: "int \<Rightarrow> string \<Rightarrow> props option \<Rightarrow> unit \<Rightarrow> error + ((string \<times> props option) \<times> unit)" where
  "shiftHeading mostImportantHeading tagName ps u =
     (if length tagName = 2 \<and> startsWith (toLowerCase tagName) ''h''
      then (case parseInt (substr tagName 1) of
              None \<Rightarrow> Inr ((tagName, ps), u)
            | Some level \<Rightarrow>
                (let newLevel = desiredHeading - mostImportantHeading + level
                 in Inr ((''h'' @ showInt newLevel, ps), u)))
      else Inr ((tagName, ps), u))"

definition normalizeHeaders :: "node \<Rightarrow> error + node" where
  "normalizeHeaders tree =
     (case visit isElement findHeading tree Infinity of
        Inl e \<Rightarrow> Inl e
      | Inr (tree1, Infinity) \<Rightarrow> Inr tree1
      | Inr (tree1, Level m) \<Rightarrow>
          (case visit isElement (shiftHeading m) tree1 () of
             Inl e \<Rightarrow> Inl e
           | Inr (tree2, u) \<Rightarrow> Inr tree2))"

subsection \<open>replaceFreeLinkWithOEmbed\<close>

text \<open>
  The metadata that \<^verbatim>\<open>getOEmbed\<close> resolves to, with the fields the pass reads. The
  thumbnail sizes are kept as the strings that \<^verbatim>\<open>String(...)\<close> makes of them.
\<close>

record oembed =
  oembed_type :: string
  oembed_html :: "string option"
  oembed_title :: string
  thumbnail_url :: string
  thumbnail_width :: string
  thumbnail_height :: string

text \<open>
  What the pass calls outside this file: the lookup \<^verbatim>\<open>getOEmbed(href, options)\<close>, which
  resolves to the metadata or to null, or rejects; the HTML parser under \<^verbatim>\<open>tryCatch\<close>,
  which gives the children of the parsed root or an error; and the text of
  \<^verbatim>\<open>Number(width) / Number(height) || 1.69\<close> for an iframe, a floating-point number.
\<close>

record ext =
  getOEmbed :: "string \<Rightarrow> error + oembed option"
  parseHtml :: "string option \<Rightarrow> error + node list"
  aspect :: "node \<Rightarrow> string"

text \<open>The parser gives every element its children, so a body without them has none.\<close>

fun findBody :: "node \<Rightarrow> node list" where
  "findBody (Element tagName ps cs) =
     (if tagName = ''body'' then (case cs of None \<Rightarrow> [] | Some ks \<Rightarrow> ks)
      else (case cs of None \<Rightarrow> [] | Some ks \<Rightarrow> concat (map findBody ks)))"
| "findBody (MdxJsxTextElement nm ps cs) =
     (case cs of None \<Rightarrow> [] | Some ks \<Rightarrow> concat (map findBody ks))"
| "findBody (Root ks) = concat (map findBody ks)"
| "findBody (Text v) = []"

fun wrapIframe :: "ext \<Rightarrow> node \<Rightarrow> node" where
  "wrapIframe x (Element tagName ps cs) =
     (if tagName = ''iframe'' then
        Element ''div''
          (Some [(''style'', PStr (''aspect-ratio: '' @ aspect x (Element tagName ps cs) @ '';''))])
          (Some [Element tagName ps cs])
      else Element tagName ps cs)"
| "wrapIframe x n = n"

definition oEmbedCard :: "ext \<Rightarrow> string \<Rightarrow> oembed \<Rightarrow> node" where
  "oEmbedCard x href oEmbed =
     (let rest =
            (if oembed_type oEmbed = ''video'' \<or> oembed_type oEmbed = ''rich''
             then (case parseHtml x (oembed_html oEmbed) of Inl e \<Rightarrow> None | Inr ks \<Rightarrow> Some ks)
             else None);
          cover = Element ''img''
            (Some [(''src'', PStr (thumbnail_url oEmbed)),
                   (''width'', PStr (thumbnail_width oEmbed)),
                   (''height'', PStr (thumbnail_height oEmbed)),
                   (''title'', PStr (''Otw'' @ [CHR 0xF3] @ ''rz '' @ oembed_title oEmbed))])
            None;
          elements = (case rest of
                        None \<Rightarrow> []
                      | Some ks \<Rightarrow> map (wrapIframe x) (concat (map findBody ks)));
          shouldLinkWholeCard =
            (oembed_type oEmbed = ''rich'' \<and>
             (case oembed_html oEmbed of None \<Rightarrow> False | Some h \<Rightarrow> h \<noteq> []));
          replacement = Element ''figure'' (Some [(''class'', PStr ''oembed'')])
            (Some ((if oembed_type oEmbed = ''rich'' then [cover] else [])
                 @ (if elements \<noteq> [] \<and> oembed_type oEmbed \<noteq> ''rich'' then elements else [])
                 @ [Element ''figcaption'' None
                      (Some ([Element ''cite'' None
                                (Some [if shouldLinkWholeCard then Text href
                                       else Element ''a''
                                              (Some [(''href'', PStr href),
                                                     (''title'', PStr (oembed_title oEmbed))])
                                              (Some [Text href])]),
                              Element ''p'' (Some [(''class'', PStr ''title'')])
                                (Some (if oembed_title oEmbed \<noteq> []
                                       then [Text (oembed_title oEmbed)] else []))]
                           @ (if elements \<noteq> [] \<and> oembed_type oEmbed = ''rich''
                              then elements else [])))]))
      in if shouldLinkWholeCard
         then Element ''a''
                (Some [(''href'', PStr href), (''title'', PStr (oembed_title oEmbed))])
                (Some [replacement])
         else replacement)"

text \<open>\<^verbatim>\<open>anchorNode.children?.[0]?.value\<close>: only a text node has a value.\<close>

fun firstValue :: "node list option \<Rightarrow> string option" where
  "firstValue (Some (Text v # rest)) = Some v"
| "firstValue cs = None"

text \<open>
  \<^verbatim>\<open>Bluebird.mapSeries\<close> runs the children of a root one after the other and rejects with
  the first rejection. Every other node is tested for a paragraph whose only child is
  an anchor with a non-empty href equal to the value of the anchor's first child.
\<close>

fun replaceFreeLinkWithOEmbed :: "ext \<Rightarrow> node \<Rightarrow> error + node" where
  "replaceFreeLinkWithOEmbed x (Root ks) =
     (case mapE (replaceFreeLinkWithOEmbed x) ks of
        Inl e \<Rightarrow> Inl e
      | Inr ks' \<Rightarrow> Inr (Root ks'))"
| "replaceFreeLinkWithOEmbed x (Element tagName ps (Some [Element anchorTag aps acs])) =
     (if \<not> isPNode (Element tagName ps (Some [Element anchorTag aps acs]))
         \<or> \<not> isAnchorNode (Element anchorTag aps acs)
      then Inr (Element tagName ps (Some [Element anchorTag aps acs]))
      else (case getProp aps ''href'' of
              Some (PStr href) \<Rightarrow>
                if href = [] \<or> firstValue acs \<noteq> Some href
                then Inr (Element tagName ps (Some [Element anchorTag aps acs]))
                else (case getOEmbed x href of
                        Inl e \<Rightarrow> Inl e
                      | Inr None \<Rightarrow> Inr (Element tagName ps (Some [Element anchorTag aps acs]))
                      | Inr (Some oEmbed) \<Rightarrow> Inr (oEmbedCard x href oEmbed))
            | _ \<Rightarrow> Inr (Element tagName ps (Some [Element anchorTag aps acs]))))"
| "replaceFreeLinkWithOEmbed x node = Inr node"


section \<open>Vocabulary of the statements\<close>

subsection \<open>Heading levels\<close>

text \<open>
  The tags of the elements of a tree in pre-order, and the tree with a function applied
  to each of them. The level of a tag is the one \<^const>\<open>normalizeHeaders\<close> reads: the tag
  has two characters, the first is h or H, and the second parses as a number.
  \<^term>\<open>headingLevels t\<close> lists the levels of the headings of \<^term>\<open>t\<close>; \<^term>\<open>shiftTag m\<close>
  renames a heading of level \<open>l\<close> to h followed by \<open>2 - m + l\<close> and keeps every other
  tag; \<^term>\<open>lower\<close> is the update of the lowest level seen so far.
\<close>

fun elementTags :: "node \<Rightarrow> string list" where
  "elementTags (Element tagName ps cs) =
     tagName # (case cs of None \<Rightarrow> [] | Some ks \<Rightarrow> concat (map elementTags ks))"
| "elementTags (MdxJsxTextElement nm ps cs) =
     (case cs of None \<Rightarrow> [] | Some ks \<Rightarrow> concat (map elementTags ks))"
| "elementTags (Root ks) = concat (map elementTags ks)"
| "elementTags (Text v) = []"

fun mapTags :: "(string \<Rightarrow> string) \<Rightarrow> node \<Rightarrow> node" where
  "mapTags h (Element tagName ps cs) = Element (h tagName) ps (map_option (map (mapTags h)) cs)"
| "mapTags h (MdxJsxTextElement nm ps cs) = MdxJsxTextElement nm ps (map_option (map (mapTags h)) cs)"
| "mapTags h (Root ks) = Root (map (mapTags h) ks)"
| "mapTags h (Text v) = Text v"

definition headingLevel :: "string \<Rightarrow> int option" where
  "headingLevel tagName =
     (if length tagName = 2 \<and> startsWith (toLowerCase tagName) ''h''
      then parseInt (substr tagName 1) else None)"

definition headingLevels :: "node \<Rightarrow> int list" where
  "headingLevels t = List.map_filter headingLevel (elementTags t)"

definition shiftTag :: "int \<Rightarrow> string \<Rightarrow> string" where
  "shiftTag m tagName =
     (case headingLevel tagName of
        None \<Rightarrow> tagName
      | Some l \<Rightarrow> ''h'' @ showInt (2 - m + l))"

definition lower :: "string \<Rightarrow> heading \<Rightarrow> heading" where
  "lower tagName most =
     (case headingLevel tagName of
        None \<Rightarrow> most
      | Some l \<Rightarrow> if below l most then Level l else most)"

definition headingsExample :: node where
  "headingsExample =
     Root [Element ''h3'' None (Some [Text ''One'']),
           Element ''div'' None (Some [Element ''h3'' None (Some [Text ''Two'']), Element ''hr'' None None]),
           Element ''h5'' None (Some [Text ''Three''])]"

definition plainExample :: node where
  "plainExample = Root [Element ''p'' None (Some [Text ''body'']), Element ''hr'' None None]"

subsection \<open>Examples for imageAttributes\<close>

definition imageExample :: "string \<Rightarrow> node" where
  "imageExample title =
     Root [Element ''p'' None (Some
       [Element ''img'' (Some [(''src'', PStr ''cat.png''), (''title'', PStr title)]) (Some [])])]"

subsection \<open>Nodes that collapseParagraphs leaves alone\<close>

text \<open>
  \<^term>\<open>settled n\<close>: no paragraph that the traversal of \<^const>\<open>collapseParagraphs\<close> reaches
  in \<^term>\<open>n\<close> has a paragraph-like node as its only child. \<^term>\<open>unwrapsSettled n\<close>: every
  inner node that the pass puts in the place of its parent is settled.
\<close>

fun settled :: "node \<Rightarrow> bool" where
  "settled (Element tagName ps cs) =
     (if isPNode (Element tagName ps cs) then
        (case cs of
           Some [c] \<Rightarrow> \<not> (isPNode c \<or> isMdxPNode c)
         | _ \<Rightarrow> True)
      else (case cs of None \<Rightarrow> True | Some ks \<Rightarrow> list_all settled ks))"
| "settled (MdxJsxTextElement nm ps cs) =
     (case cs of None \<Rightarrow> True | Some ks \<Rightarrow> list_all settled ks)"
| "settled (Root ks) = list_all settled ks"
| "settled (Text v) = True"

fun unwrapsSettled :: "node \<Rightarrow> bool" where
  "unwrapsSettled (Element tagName ps cs) =
     (if isPNode (Element tagName ps cs) then
        (case cs of
           Some [c] \<Rightarrow> if isPNode c \<or> isMdxPNode c then settled c else True
         | _ \<Rightarrow> True)
      else (case cs of None \<Rightarrow> True | Some ks \<Rightarrow> list_all unwrapsSettled ks))"
| "unwrapsSettled (MdxJsxTextElement nm ps cs) =
     (case cs of None \<Rightarrow> True | Some ks \<Rightarrow> list_all unwrapsSettled ks)"
| "unwrapsSettled (Root ks) = list_all unwrapsSettled ks"
| "unwrapsSettled (Text v) = True"

text \<open>A text wrapped in \<open>depth\<close> paragraphs, each the only child of the one around it.\<close>

primrec nestedParagraphs :: "nat \<Rightarrow> node" where
  "nestedParagraphs 0 = Text ''x''"
| "nestedParagraphs (Suc depth) = Element ''p'' None (Some [nestedParagraphs depth])"

subsection \<open>The lead paragraph\<close>

text \<open>A paragraph with its class set to lead, everything else as it was.\<close>

fun leadMarked :: "node \<Rightarrow> node" where
  "leadMarked (Element tagName ps cs) =
     Element tagName (Some (AList.update ''class'' (PStr ''lead'') (spread ps))) cs"
| "leadMarked n = n"

definition quoteExample :: node where
  "quoteExample =
     Root [Element ''blockquote'' None (Some
             [Element ''p'' (Some [(''id'', PStr ''q''), (''class'', PStr ''note'')]) (Some [Text ''quoted''])]),
           Element ''p'' None (Some [Text ''second''])]"

subsection \<open>Examples for link wrapping\<close>

definition nestedLinks :: node where
  "nestedLinks =
     Root [Element ''svg'' None (Some
       [Element ''a'' (Some [(''href'', PStr ''/outer'')]) (Some
          [Element ''a'' (Some [(''href'', PStr ''/inner'')]) (Some [Text ''inner''])])])]"

definition linkExample :: node where
  "linkExample =
     Root [Element ''p'' None (Some
       [Text ''see '', Element ''a'' (Some [(''href'', PStr ''/docs'')]) (Some [Text ''the docs''])])]"

subsection \<open>SVG paths\<close>

text \<open>
  \<^term>\<open>pathDataIsText n\<close>: every path element that the traversal of \<^const>\<open>fixSvgPaths\<close>
  reaches in \<^term>\<open>n\<close> has a \<open>d\<close> that is a string, or none.
\<close>

fun pathDataIsText :: "node \<Rightarrow> bool" where
  "pathDataIsText (Element tagName ps cs) =
     (if isPathNode (Element tagName ps cs) then
        (case getProp ps ''d'' of Some (PList ds) \<Rightarrow> False | _ \<Rightarrow> True)
      else (case cs of None \<Rightarrow> True | Some ks \<Rightarrow> list_all pathDataIsText ks))"
| "pathDataIsText (MdxJsxTextElement nm ps cs) =
     (case cs of None \<Rightarrow> True | Some ks \<Rightarrow> list_all pathDataIsText ks)"
| "pathDataIsText (Root ks) = list_all pathDataIsText ks"
| "pathDataIsText (Text v) = True"

definition pathData :: string where
  "pathData = ''M10 10'' @ [CHR 0x0A, CHR 0x0A] @ ''  L20   20''"

definition svgExample :: node where
  "svgExample = Root [Element ''svg'' None (Some [Element ''path'' (Some [(''d'', PStr pathData), (''fill'', PStr ''red'')]) (Some [])])]"

definition nestedPaths :: node where
  "nestedPaths =
     Root [Element ''svg'' None (Some
       [Element ''path'' (Some [(''d'', PStr ''M0 0   L1 1'')]) (Some
          [Element ''path'' (Some [(''d'', PStr ''M2   2'')]) (Some [])])])]"

subsection \<open>Examples for embedded media\<close>

definition noMetadata :: ext where
  "noMetadata = \<lparr> getOEmbed = (\<lambda>href. Inr None), parseHtml = (\<lambda>html. Inr []), aspect = (\<lambda>n. ''1.69'') \<rparr>"

definition photoMetadata :: ext where
  "photoMetadata = \<lparr> getOEmbed = (\<lambda>href. Inr (Some \<lparr> oembed_type = ''photo'', oembed_html = None, oembed_title = ''T'',
       thumbnail_url = ''http://x/y.png'', thumbnail_width = ''100'', thumbnail_height = ''50'' \<rparr>)),
     parseHtml = (\<lambda>html. Inr []), aspect = (\<lambda>n. ''1.69'') \<rparr>"

definition freeLink :: node where
  "freeLink = Element ''p'' None (Some
     [Element ''a'' (Some [(''href'', PStr ''https://example.com/v'')]) (Some [Text ''https://example.com/v''])])"

section \<open>Heading normalization\<close>

lemma traverse_Inr:
  assumes "\<And>x s. x \<in> set xs \<Longrightarrow> f x s = Inr (h x, g x s)"
  shows "traverse f xs s = Inr (map h xs, fold g xs s)"
  using assms by (induction xs arbitrary: s) auto

lemma fold_concat_fold: "fold f (concat xss) s = fold (\<lambda>xs. fold f xs) xss s"
  by (induction xss arbitrary: s) auto

lemma findHeading_eq: "findHeading tagName ps most = Inr ((tagName, ps), lower tagName most)"
  by (auto simp: findHeading_def lower_def headingLevel_def split: option.splits)

lemma shiftHeading_eq: "shiftHeading m tagName ps u = Inr ((shiftTag m tagName, ps), u)"
  by (auto simp: shiftHeading_def shiftTag_def headingLevel_def desiredHeading_def Let_def split: option.splits)

lemma visit_findHeading:
  "visit isElement findHeading t s = Inr (t, fold lower (elementTags t) s)"
proof (induction t arbitrary: s)
  case (Element tagName ps cs)
  show ?case
  proof (cases cs)
    case None
    then show ?thesis by (simp add: findHeading_eq[of tagName ps s])
  next
    case (Some ks)
    have "traverse (visit isElement findHeading) ks s' = Inr (map (\<lambda>k. k) ks, fold (\<lambda>k. fold lower (elementTags k)) ks s')" for s'
      by (rule traverse_Inr) (use Element Some in auto)
    then show ?thesis using Some by (simp add: findHeading_eq[of tagName ps s] fold_concat_fold fold_map comp_def)
  qed
next
  case (MdxJsxTextElement nm ps cs)
  show ?case
  proof (cases cs)
    case None
    then show ?thesis by simp
  next
    case (Some ks)
    have "traverse (visit isElement findHeading) ks s' = Inr (map (\<lambda>k. k) ks, fold (\<lambda>k. fold lower (elementTags k)) ks s')" for s'
      by (rule traverse_Inr) (use MdxJsxTextElement Some in auto)
    then show ?thesis using Some by (simp add: fold_concat_fold fold_map comp_def)
  qed
next
  case (Root ks)
  have "traverse (visit isElement findHeading) ks s' = Inr (map (\<lambda>k. k) ks, fold (\<lambda>k. fold lower (elementTags k)) ks s')" for s'
    by (rule traverse_Inr) (use Root in auto)
  then show ?case by (simp add: fold_concat_fold fold_map comp_def)
next
  case (Text v)
  show ?case by simp
qed

lemma visit_shiftHeading:
  "visit isElement (shiftHeading m) t u = Inr (mapTags (shiftTag m) t, u)"
proof (induction t arbitrary: u)
  case (Element tagName ps cs)
  show ?case
  proof (cases cs)
    case None
    then show ?thesis by (simp add: shiftHeading_eq[of m tagName ps "()"])
  next
    case (Some ks)
    have "traverse (visit isElement (shiftHeading m)) ks s' = Inr (map (mapTags (shiftTag m)) ks, fold (\<lambda>k s. s) ks s')" for s'
      by (rule traverse_Inr) (use Element Some in auto)
    then show ?thesis using Some by (simp add: shiftHeading_eq[of m tagName ps "()"])
  qed
next
  case (MdxJsxTextElement nm ps cs)
  show ?case
  proof (cases cs)
    case None
    then show ?thesis by simp
  next
    case (Some ks)
    have "traverse (visit isElement (shiftHeading m)) ks s' = Inr (map (mapTags (shiftTag m)) ks, fold (\<lambda>k s. s) ks s')" for s'
      by (rule traverse_Inr) (use MdxJsxTextElement Some in auto)
    then show ?thesis using Some by simp
  qed
next
  case (Root ks)
  have "traverse (visit isElement (shiftHeading m)) ks s' = Inr (map (mapTags (shiftTag m)) ks, fold (\<lambda>k s. s) ks s')" for s'
    by (rule traverse_Inr) (use Root in auto)
  then show ?case by simp
next
  case (Text v)
  show ?case by simp
qed


lemma elementTags_mapTags: "elementTags (mapTags h t) = map h (elementTags t)"
proof (induction t)
  case (Element tagName ps cs)
  then show ?case by (cases cs) (auto simp: map_concat comp_def intro!: arg_cong[where f = concat])
next
  case (MdxJsxTextElement nm ps cs)
  then show ?case by (cases cs) (auto simp: map_concat comp_def intro!: arg_cong[where f = concat])
next
  case (Root ks)
  then show ?case by (auto simp: map_concat comp_def intro!: arg_cong[where f = concat])
qed simp

lemma digit_not_space: "isDigit c \<Longrightarrow> \<not> isWhitespace c"
  by (auto simp: isDigit_def isWhitespace_def)

lemma digit_not_sign: "isDigit c \<Longrightarrow> c \<noteq> CHR ''-'' \<and> c \<noteq> CHR ''+''"
  by (auto simp: isDigit_def)

lemma isDigit_digitChar: "d < 10 \<Longrightarrow> isDigit (digitChar d)"
  by (simp add: isDigit_def digitChar_def)

lemma digitValue_digitChar: "d < 10 \<Longrightarrow> digitValue (digitChar d) = int d"
  by (simp add: digitValue_def digitChar_def)

lemma digitValue_range: "isDigit c \<Longrightarrow> 0 \<le> digitValue c \<and> digitValue c \<le> 9"
  by (auto simp: isDigit_def digitValue_def)

lemma parseInt_digits:
  assumes "list_all isDigit ds" "ds \<noteq> []"
  shows "parseInt ds = Some (foldl (\<lambda>acc c. 10 * acc + digitValue c) 0 ds)"
proof -
  obtain c cs where ds: "ds = c # cs" using assms(2) by (cases ds) auto
  have c: "isDigit c" using assms(1) ds by simp
  have tw: "takeWhile isDigit ds = ds" using assms(1) by (simp add: list_all_iff)
  have dw: "dropWhile isWhitespace ds = ds"
    using digit_not_space[OF c] ds by simp
  have ns: "\<not> startsWith ds ''-''" "\<not> startsWith ds ''+''"
    using digit_not_sign[OF c] ds by (simp_all add: startsWith_def)
  show ?thesis
    unfolding parseInt_def Let_def dw using ns assms(2) by (simp only: tw if_False simp_thms)
qed

lemma parseInt_single: "parseInt [c] = (if isDigit c then Some (digitValue c) else None)"
  by (auto simp: parseInt_def startsWith_def Let_def digit_not_space dest: digit_not_sign)

lemma showNat_digits: "list_all isDigit (showNat n) \<and> showNat n \<noteq> []"
proof (induction n rule: showNat.induct)
  case (1 n)
  show ?case
  proof (cases "n < 10")
    case True
    then show ?thesis by (subst (1 2) showNat.simps) (simp add: isDigit_digitChar)
  next
    case False
    then show ?thesis using 1 by (subst (1 2) showNat.simps) (simp add: isDigit_digitChar)
  qed
qed

lemma showNat_value: "foldl (\<lambda>acc c. 10 * acc + digitValue c) 0 (showNat n) = int n"
proof (induction n rule: showNat.induct)
  case (1 n)
  show ?case
  proof (cases "n < 10")
    case True
    then show ?thesis by (subst showNat.simps) (simp add: digitValue_digitChar)
  next
    case False
    have "10 * int (n div 10) + int (n mod 10) = int n" by presburger
    then show ?thesis using False 1 by (subst showNat.simps) (simp add: digitValue_digitChar)
  qed
qed

lemma parseInt_showInt: "0 \<le> n \<Longrightarrow> parseInt (showInt n) = Some n"
  using showNat_digits[of "nat n"] by (simp add: showInt_def parseInt_digits showNat_value)

lemma showNat_small: "n < 10 \<Longrightarrow> showNat n = [digitChar n]"
  by (subst showNat.simps) simp

lemma showNat_long: "10 \<le> n \<Longrightarrow> 2 \<le> length (showNat n)"
  using showNat_digits[of "n div 10"] by (subst showNat.simps) (cases "showNat (n div 10)"; simp)

lemma headingLevel_range:
  assumes "headingLevel tagName = Some l"
  shows "0 \<le> l \<and> l \<le> 9"
proof -
  from assms have len: "length tagName = 2" and p: "parseInt (substr tagName 1) = Some l"
    by (auto simp: headingLevel_def split: if_splits)
  from len obtain a c where "tagName = [a, c]"
    by (cases tagName; cases "tl tagName"; auto)
  then show ?thesis using p digitValue_range[of c]
    by (auto simp: substr_def parseInt_single split: if_splits)
qed

lemma headingLevel_h:
  assumes "0 \<le> n"
  shows "headingLevel (CHR ''h'' # showInt n) = (if n \<le> 9 then Some n else None)"
proof (cases "n \<le> 9")
  case True
  then have "showInt n = [digitChar (nat n)]" using assms by (simp add: showInt_def showNat_small)
  then show ?thesis using True assms
    by (simp add: headingLevel_def substr_def parseInt_single isDigit_digitChar digitValue_digitChar
        toLowerCase_def startsWith_def lowerChar_def)
next
  case False
  then have "2 \<le> length (showInt n)" using showNat_long[of "nat n"] by (simp add: showInt_def)
  then show ?thesis using False by (simp add: headingLevel_def)
qed

lemma shiftTag_level:
  assumes "headingLevel tagName = Some l" "m \<le> l"
  shows "parseInt (substr (shiftTag m tagName) 1) = Some (2 - m + l)"
  using assms by (simp add: shiftTag_def substr_def parseInt_showInt)

lemma headingLevel_shiftTag_None: "headingLevel tagName = None \<Longrightarrow> headingLevel (shiftTag m tagName) = None"
  by (simp add: shiftTag_def)

lemma headingLevel_shiftTag_Some:
  assumes "headingLevel tagName = Some l" "m \<le> l"
  shows "headingLevel (shiftTag m tagName) = (if 2 - m + l \<le> 9 then Some (2 - m + l) else None)"
  using assms headingLevel_h[of "2 - m + l"] by (simp add: shiftTag_def)

lemma lower_None: "headingLevel tg = None \<Longrightarrow> lower tg most = most"
  by (simp add: lower_def)

lemma lower_Some_Infinity: "headingLevel tg = Some l \<Longrightarrow> lower tg Infinity = Level l"
  by (simp add: lower_def)

lemma lower_Some_Level: "headingLevel tg = Some l \<Longrightarrow> lower tg (Level a) = Level (min a l)"
  by (auto simp: lower_def min_def)

lemma fold_lower_Level:
  "fold lower tags (Level a) = Level (Min (insert a (set (List.map_filter headingLevel tags))))"
proof (induction tags arbitrary: a)
  case Nil
  then show ?case by simp
next
  case (Cons tg tags)
  show ?case
  proof (cases "headingLevel tg")
    case None
    then show ?thesis using Cons by (simp add: lower_None)
  next
    case (Some l)
    have "Min (insert (min a l) S) = Min (insert a (insert l S))" if "finite S" for S
      using that by (cases "S = {}") (simp_all add: min.assoc)
    then show ?thesis using Some Cons
      by (simp add: lower_Some_Level)
  qed
qed

lemma fold_lower_Infinity:
  "fold lower tags Infinity =
     (if List.map_filter headingLevel tags = [] then Infinity
      else Level (Min (set (List.map_filter headingLevel tags))))"
proof (induction tags)
  case Nil
  then show ?case by simp
next
  case (Cons tg tags)
  show ?case
  proof (cases "headingLevel tg")
    case None
    then show ?thesis using Cons by (simp add: lower_None)
  next
    case (Some l)
    then show ?thesis by (simp add: lower_Some_Infinity fold_lower_Level)
  qed
qed

lemma set_map_filter_eq: "set (List.map_filter f xs) = {y. \<exists>x \<in> set xs. f x = Some y}"
  by (induction xs) (auto simp: split: option.splits)

lemma normalizeHeaders_none:
  assumes "headingLevels t = []"
  shows "normalizeHeaders t = Inr t"
  using assms by (simp add: normalizeHeaders_def visit_findHeading fold_lower_Infinity headingLevels_def)

lemma normalizeHeaders_some:
  assumes "headingLevels t \<noteq> []"
  shows "normalizeHeaders t = Inr (mapTags (shiftTag (Min (set (headingLevels t)))) t)"
  using assms by (simp add: normalizeHeaders_def visit_findHeading fold_lower_Infinity headingLevels_def visit_shiftHeading)

lemma headingLevels_shifted_min:
  assumes "headingLevels t \<noteq> []"
  shows "Min (set (headingLevels (mapTags (shiftTag (Min (set (headingLevels t)))) t))) = 2"
proof -
  let ?m = "Min (set (headingLevels t))"
  let ?S = "set (headingLevels (mapTags (shiftTag ?m) t))"
  have fin: "finite (set (headingLevels t))" by simp
  have ne: "set (headingLevels t) \<noteq> {}" using assms by simp
  have S: "?S = {l'. \<exists>tg \<in> set (elementTags t). headingLevel (shiftTag ?m tg) = Some l'}"
    by (auto simp: headingLevels_def elementTags_mapTags set_map_filter_eq)
  have lv: "set (headingLevels t) = {l. \<exists>tg \<in> set (elementTags t). headingLevel tg = Some l}"
    by (auto simp: headingLevels_def set_map_filter_eq)
  have "?m \<in> set (headingLevels t)" using Min_in[OF fin ne] .
  then obtain tg where tg: "tg \<in> set (elementTags t)" "headingLevel tg = Some ?m"
    unfolding lv by blast
  have "headingLevel (shiftTag ?m tg) = Some 2"
    using headingLevel_shiftTag_Some[OF tg(2), of ?m] by simp
  then have two: "2 \<in> ?S" using tg(1) unfolding S by blast
  have ge: "2 \<le> y" if "y \<in> ?S" for y
  proof -
    from that obtain tg' where t': "tg' \<in> set (elementTags t)" "headingLevel (shiftTag ?m tg') = Some y"
      unfolding S by blast
    show ?thesis
    proof (cases "headingLevel tg'")
      case None
      then show ?thesis using t'(2) headingLevel_shiftTag_None[of tg' ?m] by simp
    next
      case (Some l)
      then have "l \<in> set (headingLevels t)" using t'(1) unfolding lv by blast
      then have "?m \<le> l" by simp
      then show ?thesis using t'(2) headingLevel_shiftTag_Some[OF Some, of ?m]
        by (auto split: if_splits)
    qed
  qed
  show ?thesis by (rule Min_eqI) (use two ge in auto)
qed

lemma standard_heading:
  assumes "tagName \<in> {''h1'', ''h2'', ''h3'', ''h4'', ''h5'', ''h6''}"
  shows "headingLevel tagName \<noteq> None"
proof -
  have "headingLevel ''h1'' = Some 1" "headingLevel ''h2'' = Some 2" "headingLevel ''h3'' = Some 3"
    "headingLevel ''h4'' = Some 4" "headingLevel ''h5'' = Some 5" "headingLevel ''h6'' = Some 6"
    by code_simp+
  then show ?thesis using assms by auto
qed

text \<open>
  Claim C1. A tree with an element h1 to h6 has a heading. When the tree has a heading
  (an element whose two-character tag is h or H followed by a digit), the pass succeeds
  and renames every such tag to h followed by \<open>2 - minLevel + oldLevel\<close>, everything else
  in the tree staying as it was; the lowest heading level of the result is 2, and every
  renamed tag reads back as its old level plus the constant \<open>2 - minLevel\<close>, so that
  the differences between levels are kept. When the tree has no heading it is returned
  unchanged.
\<close>

theorem normalizeHeaders_shift:
  "(headingLevels t = [] \<longrightarrow> normalizeHeaders t = Inr t) \<and>
   ((\<exists>tagName \<in> set (elementTags t). tagName \<in> {''h1'', ''h2'', ''h3'', ''h4'', ''h5'', ''h6''})
      \<longrightarrow> headingLevels t \<noteq> []) \<and>
   (headingLevels t \<noteq> [] \<longrightarrow>
      normalizeHeaders t = Inr (mapTags (shiftTag (Min (set (headingLevels t)))) t) \<and>
      Min (set (headingLevels (mapTags (shiftTag (Min (set (headingLevels t)))) t))) = 2 \<and>
      (\<forall>tagName \<in> set (elementTags t). \<forall>l. headingLevel tagName = Some l \<longrightarrow>
         parseInt (substr (shiftTag (Min (set (headingLevels t))) tagName) 1)
           = Some (2 - Min (set (headingLevels t)) + l)))"
proof (intro conjI impI ballI allI)
  assume "headingLevels t = []"
  then show "normalizeHeaders t = Inr t" by (rule normalizeHeaders_none)
next
  assume "\<exists>tagName \<in> set (elementTags t). tagName \<in> {''h1'', ''h2'', ''h3'', ''h4'', ''h5'', ''h6''}"
  then obtain tagName where "tagName \<in> set (elementTags t)" "headingLevel tagName \<noteq> None"
    using standard_heading by blast
  then have "set (headingLevels t) \<noteq> {}"
    unfolding headingLevels_def set_map_filter_eq by auto
  then show "headingLevels t \<noteq> []" by auto
next
  assume "headingLevels t \<noteq> []"
  then show "normalizeHeaders t = Inr (mapTags (shiftTag (Min (set (headingLevels t)))) t)"
    by (rule normalizeHeaders_some)
next
  assume "headingLevels t \<noteq> []"
  then show "Min (set (headingLevels (mapTags (shiftTag (Min (set (headingLevels t)))) t))) = 2"
    by (rule headingLevels_shifted_min)
next
  fix tagName l
  assume "tagName \<in> set (elementTags t)" "headingLevel tagName = Some l"
  then have "l \<in> set (headingLevels t)"
    by (auto simp: headingLevels_def set_map_filter_eq)
  then have "Min (set (headingLevels t)) \<le> l" by simp
  then show "parseInt (substr (shiftTag (Min (set (headingLevels t))) tagName) 1)
           = Some (2 - Min (set (headingLevels t)) + l)"
    using \<open>headingLevel tagName = Some l\<close> by (rule shiftTag_level[rotated])
qed

theorem normalizeHeaders_shift_witness:
  "headingLevels plainExample = [] \<and> normalizeHeaders plainExample = Inr plainExample \<and>
   ''h5'' \<in> set (elementTags headingsExample) \<and>
   headingLevels headingsExample = [3, 3, 5] \<and>
   normalizeHeaders headingsExample =
     Inr (Root [Element ''h2'' None (Some [Text ''One'']),
           Element ''div'' None (Some [Element ''h2'' None (Some [Text ''Two'']), Element ''hr'' None None]),
           Element ''h4'' None (Some [Text ''Three''])]) \<and>
   parseInt (substr (shiftTag 3 ''h5'') 1) = Some 4"
proof -
  have a: "headingLevels plainExample = []" by code_simp
  have b: "headingLevels headingsExample = [3, 3, 5]" by code_simp
  have c: "mapTags (shiftTag 3) headingsExample = Root [Element ''h2'' None (Some [Text ''One'']),
           Element ''div'' None (Some [Element ''h2'' None (Some [Text ''Two'']), Element ''hr'' None None]),
           Element ''h4'' None (Some [Text ''Three''])]" by code_simp
  have d: "''h5'' \<in> set (elementTags headingsExample)" by code_simp
  have e: "headingLevel ''h5'' = Some 5" by code_simp
  show ?thesis
    using normalizeHeaders_shift[of plainExample] normalizeHeaders_shift[of headingsExample] a b c d e
    by auto
qed

text \<open>
  Claim C9. There is no cap at level 6: in a tree whose lowest heading level is 1, an
  h6 element becomes an h7 element.
\<close>

theorem normalizeHeaders_h6_to_h7:
  "headingLevels (Root [Element ''h1'' None (Some [Text ''Title'']), Element ''h6'' None (Some [Text ''Note''])]) = [1, 6] \<and>
   normalizeHeaders (Root [Element ''h1'' None (Some [Text ''Title'']), Element ''h6'' None (Some [Text ''Note''])])
     = Inr (Root [Element ''h2'' None (Some [Text ''Title'']), Element ''h7'' None (Some [Text ''Note''])])"
  by code_simp

section \<open>Image attributes\<close>

text \<open>
  Claim C2. On the title \<open>#a=1;;b=2\<close> the pass does not yield the attributes a and b:
  the empty segment between the two semicolons splits to a single empty string, its
  value is undefined, and \<open>val.trim()\<close> throws before the filter on empty keys runs, so
  the pass ends in a TypeError. Without the empty segment the two attributes are merged
  onto the image.
\<close>

theorem imageAttributes_empty_segment:
  "imageAttributes (imageExample ''#a=1;;b=2'') = Inl TypeError \<and>
   imageAttributes (imageExample ''#a=1;b=2'') =
     Inr (Root [Element ''p'' None (Some
       [Element ''img'' (Some [(''src'', PStr ''cat.png''), (''title'', PStr ''#a=1;b=2''),
          (''a'', PStr ''1''), (''b'', PStr ''2'')]) (Some [])])])"
  by code_simp

section \<open>Paragraph collapsing\<close>

lemma settled_fixed: "settled n \<Longrightarrow> collapseParagraphs n = n"
proof (induction n)
  case (Element tagName ps cs)
  show ?case
  proof (cases "tagName = ''p''")
    case True
    then show ?thesis using Element.prems by (auto split: option.splits list.splits)
  next
    case False
    then show ?thesis using Element by (cases cs) (auto simp: list_all_iff map_idI)
  qed
next
  case (MdxJsxTextElement nm ps cs)
  then show ?case by (cases cs) (auto simp: list_all_iff map_idI)
next
  case (Root ks)
  then show ?case by (auto simp: list_all_iff map_idI)
qed simp

lemma collapse_twice:
  "unwrapsSettled n \<Longrightarrow> collapseParagraphs (collapseParagraphs n) = collapseParagraphs n"
proof (induction n)
  case (Element tagName ps cs)
  show ?case
  proof (cases "tagName = ''p''")
    case True
    then show ?thesis using Element.prems
      by (auto split: option.splits list.splits simp: settled_fixed)
  next
    case False
    then show ?thesis using Element by (cases cs) (auto simp: list_all_iff)
  qed
next
  case (MdxJsxTextElement nm ps cs)
  then show ?case by (cases cs) (auto simp: list_all_iff)
next
  case (Root ks)
  then show ?case by (auto simp: list_all_iff)
qed simp

text \<open>
  Claim C3 as stated fails: a paragraph nested three deep loses one level in each run,
  since the pass returns the inner paragraph without visiting it.
\<close>

theorem collapseParagraphs_not_idempotent:
  "collapseParagraphs (Root [nestedParagraphs 3]) = Root [nestedParagraphs 2] \<and>
   collapseParagraphs (collapseParagraphs (Root [nestedParagraphs 3])) = Root [nestedParagraphs 1] \<and>
   collapseParagraphs (collapseParagraphs (Root [nestedParagraphs 3]))
     \<noteq> collapseParagraphs (Root [nestedParagraphs 3])"
  by code_simp

text \<open>
  Claim C3, amended. Collapsing twice yields the same tree as collapsing once for every
  tree in which each inner node that the pass puts in the place of its parent paragraph
  contains no further paragraph that the pass would collapse.
\<close>

theorem collapseParagraphs_idempotent_when_settled:
  "unwrapsSettled t \<Longrightarrow> collapseParagraphs (collapseParagraphs t) = collapseParagraphs t"
  by (rule collapse_twice)

theorem collapseParagraphs_idempotent_witness:
  "unwrapsSettled (Root [nestedParagraphs 2]) \<and>
   collapseParagraphs (Root [nestedParagraphs 2]) = Root [nestedParagraphs 1] \<and>
   collapseParagraphs (collapseParagraphs (Root [nestedParagraphs 2]))
     = collapseParagraphs (Root [nestedParagraphs 2])"
proof -
  have a: "unwrapsSettled (Root [nestedParagraphs 2])" by code_simp
  have b: "collapseParagraphs (Root [nestedParagraphs 2]) = Root [nestedParagraphs 1]" by code_simp
  show ?thesis using collapseParagraphs_idempotent_when_settled[OF a] a b by simp
qed

section \<open>Lead-paragraph marking\<close>

lemma withChildren_same: "childrenOf n = Some ks \<Longrightarrow> withChildren n ks = n"
  by (cases n) auto

lemma reduce_found:
  "foldl (\<lambda>acc node. if fst acc then (fst acc, snd acc @ [node])
                      else (let result = r node in (fst result, snd acc @ [snd result])))
         (True, acc) ks = (True, acc @ ks)"
  by (induction ks arbitrary: acc) auto

lemma reduce_none:
  assumes "\<And>k. k \<in> set ks \<Longrightarrow> r k = (False, k)"
  shows "foldl (\<lambda>acc node. if fst acc then (fst acc, snd acc @ [node])
                      else (let result = r node in (fst result, snd acc @ [snd result])))
         (False, acc) ks = (False, acc @ ks)"
  using assms by (induction ks arbitrary: acc) auto

lemma reduce_hit:
  assumes "i < length ks" "\<And>j. j < i \<Longrightarrow> r (ks ! j) = (False, ks ! j)" "r (ks ! i) = (True, k')"
  shows "foldl (\<lambda>acc node. if fst acc then (fst acc, snd acc @ [node])
                      else (let result = r node in (fst result, snd acc @ [snd result])))
         (False, acc) ks = (True, acc @ ks[i := k'])"
  using assms
proof (induction ks arbitrary: acc i)
  case Nil
  then show ?case by simp
next
  case (Cons k ks)
  show ?case
  proof (cases i)
    case 0
    then show ?thesis using Cons.prems(3) by (simp add: reduce_found)
  next
    case (Suc i')
    have k: "r k = (False, k)" using Cons.prems(2)[of 0] Suc by simp
    have "foldl (\<lambda>acc node. if fst acc then (fst acc, snd acc @ [node])
                      else (let result = r node in (fst result, snd acc @ [snd result])))
         (False, acc @ [k]) ks = (True, (acc @ [k]) @ ks[i' := k'])"
    proof (rule Cons.IH)
      show "i' < length ks" using Cons.prems(1) Suc by simp
      show "r (ks ! j) = (False, ks ! j)" if "j < i'" for j
        using Cons.prems(2)[of "Suc j"] that Suc by simp
      show "r (ks ! i') = (True, k')" using Cons.prems(3) Suc by simp
    qed
    then show ?thesis using k Suc by simp
  qed
qed

lemma addLeadRun_parent:
  assumes "\<not> isPNode t"
  shows "addLeadRun t =
     (case childrenOf t of
        None \<Rightarrow> (False, t)
      | Some ks \<Rightarrow>
          (let c = foldl (\<lambda>acc node. if fst acc then (fst acc, snd acc @ [node])
                      else (let result = addLeadRun node in (fst result, snd acc @ [snd result])))
                    (False, []) ks
           in (fst c, withChildren t (snd c))))"
  using assms by (cases t) (auto split: option.splits)

lemma child_no_paragraph:
  assumes "\<And>q m. nodeAt t q = Some m \<Longrightarrow> \<not> isPNode m" "childrenOf t = Some ks" "k \<in> set ks"
  shows "nodeAt k q = Some m \<Longrightarrow> \<not> isPNode m"
proof -
  assume a: "nodeAt k q = Some m"
  from assms(3) obtain j where j: "j < length ks" "ks ! j = k" by (auto simp: in_set_conv_nth)
  then have "nodeAt t (j # q) = Some m" using assms(2) a by simp
  then show ?thesis using assms(1) by blast
qed

lemma size_child: "childrenOf t = Some ks \<Longrightarrow> k \<in> set ks \<Longrightarrow> size k < size t"
proof -
  assume a: "childrenOf t = Some ks" "k \<in> set ks"
  have "size k \<le> size_list size ks" using a(2) by (simp add: size_list_estimation')
  then show ?thesis using a(1) by (cases t) auto
qed


lemma addLeadRun_no_paragraph:
  assumes "\<And>q m. nodeAt t q = Some m \<Longrightarrow> \<not> isPNode m"
  shows "addLeadRun t = (False, t)"
  using assms
proof (induction t rule: measure_induct_rule[where f = size])
  case (less t)
  have np: "\<not> isPNode t" using less.prems[of "[]" t] by simp
  show ?case
  proof (cases "childrenOf t")
    case None
    then show ?thesis using np by (simp add: addLeadRun_parent)
  next
    case (Some ks)
    have "addLeadRun k = (False, k)" if "k \<in> set ks" for k
    proof (rule less.IH)
      show "size k < size t" using Some that by (rule size_child)
      show "\<not> isPNode m" if "nodeAt k q = Some m" for q m
        using child_no_paragraph[OF less.prems Some \<open>k \<in> set ks\<close> that] .
    qed
    then have "foldl (\<lambda>acc node. if fst acc then (fst acc, snd acc @ [node])
                      else (let result = addLeadRun node in (fst result, snd acc @ [snd result])))
         (False, []) ks = (False, [] @ ks)"
      by (rule reduce_none)
    then show ?thesis using np Some by (simp add: addLeadRun_parent withChildren_same)
  qed
qed

lemma addLeadRun_first:
  assumes "nodeAt t p = Some n" "isPNode n" "\<And>q m. q < p \<Longrightarrow> nodeAt t q = Some m \<Longrightarrow> \<not> isPNode m"
  shows "addLeadRun t = (True, replaceAt t p (leadMarked n))"
  using assms
proof (induction p arbitrary: t)
  case Nil
  then show ?case by (cases t) auto
next
  case (Cons i p)
  have np: "\<not> isPNode t" using Cons.prems(3)[of "[]" t] by simp
  from Cons.prems(1) obtain ks where ks: "childrenOf t = Some ks" "i < length ks" "nodeAt (ks ! i) p = Some n"
    by (auto split: option.splits if_splits)
  have before: "addLeadRun (ks ! j) = (False, ks ! j)" if "j < i" for j
  proof (rule addLeadRun_no_paragraph)
    fix q m assume "nodeAt (ks ! j) q = Some m"
    then have "nodeAt t (j # q) = Some m" using ks that by simp
    moreover have "j # q < i # p" using that by simp
    ultimately show "\<not> isPNode m" using Cons.prems(3) by blast
  qed
  have here: "addLeadRun (ks ! i) = (True, replaceAt (ks ! i) p (leadMarked n))"
  proof (rule Cons.IH[OF ks(3) Cons.prems(2)])
    fix q m assume "q < p" "nodeAt (ks ! i) q = Some m"
    then have "i # q < i # p" "nodeAt t (i # q) = Some m" using ks by simp_all
    then show "\<not> isPNode m" using Cons.prems(3) by blast
  qed
  have "foldl (\<lambda>acc node. if fst acc then (fst acc, snd acc @ [node])
                      else (let result = addLeadRun node in (fst result, snd acc @ [snd result])))
         (False, []) ks = (True, [] @ ks[i := replaceAt (ks ! i) p (leadMarked n)])"
    using ks(2) before here by (rule reduce_hit)
  then show ?case using np ks by (simp add: addLeadRun_parent)
qed

lemma nodeAt_replaceAt:
  "nodeAt t p = Some n \<Longrightarrow> nodeAt (replaceAt t p x) p = Some x"
proof (induction p arbitrary: t)
  case Nil
  then show ?case by simp
next
  case (Cons i p)
  then show ?case by (cases t) (auto split: option.splits if_splits)
qed

lemma positions_finite: "finite {q. nodeAt t q \<noteq> None}"
proof (induction t rule: measure_induct_rule[where f = size])
  case (less t)
  show ?case
  proof (cases "childrenOf t")
    case None
    have "{q. nodeAt t q \<noteq> None} \<subseteq> {[]}"
    proof
      fix q assume "q \<in> {q. nodeAt t q \<noteq> None}"
      then show "q \<in> {[]}" using None by (cases q) auto
    qed
    then show ?thesis by (rule finite_subset) simp
  next
    case (Some ks)
    have fin: "finite {q. nodeAt (ks ! i) q \<noteq> None}" if "i < length ks" for i
      by (rule less.IH) (use Some that in \<open>auto intro: size_child\<close>)
    have "{q. nodeAt t q \<noteq> None} \<subseteq> insert [] (\<Union>i \<in> {..<length ks}. (Cons i) ` {q. nodeAt (ks ! i) q \<noteq> None})"
    proof
      fix q assume q: "q \<in> {q. nodeAt t q \<noteq> None}"
      show "q \<in> insert [] (\<Union>i \<in> {..<length ks}. (Cons i) ` {q. nodeAt (ks ! i) q \<noteq> None})"
      proof (cases q)
        case Nil
        then show ?thesis by simp
      next
        case (Cons i q')
        then show ?thesis using q Some by (auto split: if_splits)
      qed
    qed
    moreover have "finite (insert [] (\<Union>i \<in> {..<length ks}. (Cons i) ` {q. nodeAt (ks ! i) q \<noteq> None}))"
      using fin by auto
    ultimately show ?thesis by (rule finite_subset)
  qed
qed

lemma first_paragraph_exists:
  assumes "nodeAt t q = Some m" "isPNode m"
  shows "\<exists>p n. nodeAt t p = Some n \<and> isPNode n \<and> (\<forall>q m. q < p \<and> nodeAt t q = Some m \<longrightarrow> \<not> isPNode m)"
proof -
  let ?S = "{q. \<exists>m. nodeAt t q = Some m \<and> isPNode m}"
  have "?S \<subseteq> {q. nodeAt t q \<noteq> None}" by auto
  then have fin: "finite ?S" using positions_finite by (rule finite_subset)
  have ne: "?S \<noteq> {}" using assms by auto
  have "Min ?S \<in> ?S" using fin ne by (rule Min_in)
  then obtain n where n: "nodeAt t (Min ?S) = Some n" "isPNode n" by auto
  have "\<not> isPNode m'" if "q' < Min ?S" "nodeAt t q' = Some m'" for q' m'
  proof
    assume "isPNode m'"
    then have "q' \<in> ?S" using that(2) by auto
    then have "Min ?S \<le> q'" using fin by simp
    then show False using that(1) by simp
  qed
  then show ?thesis using n by blast
qed

text \<open>
  Claim C5. A tree with no paragraph is returned unchanged. A tree with a paragraph
  has a first paragraph in pre-order, and the result of the pass is the input with the
  node at that position replaced by the same paragraph with its class set to lead: no
  other position of the tree is touched.
\<close>

theorem addLead_marks_only_first:
  "((\<forall>q m. nodeAt t q = Some m \<longrightarrow> \<not> isPNode m) \<longrightarrow> addLeadToFirstParagraph t = t) \<and>
   ((\<exists>q m. nodeAt t q = Some m \<and> isPNode m) \<longrightarrow>
      (\<exists>p n. nodeAt t p = Some n \<and> isPNode n \<and>
             (\<forall>q m. q < p \<and> nodeAt t q = Some m \<longrightarrow> \<not> isPNode m))) \<and>
   (\<forall>p n. nodeAt t p = Some n \<and> isPNode n \<and>
           (\<forall>q m. q < p \<and> nodeAt t q = Some m \<longrightarrow> \<not> isPNode m) \<longrightarrow>
      addLeadToFirstParagraph t = replaceAt t p (leadMarked n))"
proof (intro conjI impI allI)
  assume "\<forall>q m. nodeAt t q = Some m \<longrightarrow> \<not> isPNode m"
  then show "addLeadToFirstParagraph t = t"
    by (simp add: addLeadToFirstParagraph_def addLeadRun_no_paragraph)
next
  assume "\<exists>q m. nodeAt t q = Some m \<and> isPNode m"
  then show "\<exists>p n. nodeAt t p = Some n \<and> isPNode n \<and>
             (\<forall>q m. q < p \<and> nodeAt t q = Some m \<longrightarrow> \<not> isPNode m)"
    using first_paragraph_exists by blast
next
  fix p n
  assume a: "nodeAt t p = Some n \<and> isPNode n \<and>
           (\<forall>q m. q < p \<and> nodeAt t q = Some m \<longrightarrow> \<not> isPNode m)"
  then have "addLeadRun t = (True, replaceAt t p (leadMarked n))"
    by (intro addLeadRun_first) blast+
  then show "addLeadToFirstParagraph t = replaceAt t p (leadMarked n)"
    by (simp add: addLeadToFirstParagraph_def)
qed

lemma before_00: "q < [0, 0 :: nat] \<Longrightarrow> q = [] \<or> q = [0]"
proof (cases q)
  case Nil
  then show ?thesis by simp
next
  case (Cons a q')
  assume "q < [0, 0]"
  then show ?thesis using Cons by (cases q') auto
qed

theorem addLead_marks_only_first_witness:
  "addLeadToFirstParagraph (Root [Text ''no paragraph'', Element ''hr'' None None])
     = Root [Text ''no paragraph'', Element ''hr'' None None] \<and>
   nodeAt quoteExample [0, 0]
     = Some (Element ''p'' (Some [(''id'', PStr ''q''), (''class'', PStr ''note'')]) (Some [Text ''quoted''])) \<and>
   (\<exists>p n. nodeAt quoteExample p = Some n \<and> isPNode n \<and>
          (\<forall>q m. q < p \<and> nodeAt quoteExample q = Some m \<longrightarrow> \<not> isPNode m)) \<and>
   addLeadToFirstParagraph quoteExample =
     Root [Element ''blockquote'' None (Some
             [Element ''p'' (Some [(''id'', PStr ''q''), (''class'', PStr ''lead'')]) (Some [Text ''quoted''])]),
           Element ''p'' None (Some [Text ''second''])]"
proof -
  let ?plain = "Root [Text ''no paragraph'', Element ''hr'' None None]"
  let ?qp = "Element ''p'' (Some [(''id'', PStr ''q''), (''class'', PStr ''note'')]) (Some [Text ''quoted''])"
  have none: "\<forall>q m. nodeAt ?plain q = Some m \<longrightarrow> \<not> isPNode m"
  proof (intro allI impI)
    fix q m assume "nodeAt ?plain q = Some m"
    then show "\<not> isPNode m"
      by (cases q; cases "tl q") (auto split: if_splits simp: nth_Cons')
  qed
  have at: "nodeAt quoteExample [0, 0] = Some ?qp" by (simp add: quoteExample_def)
  have first: "\<forall>q m. q < [0, 0] \<and> nodeAt quoteExample q = Some m \<longrightarrow> \<not> isPNode m"
    by (auto dest!: before_00 simp: quoteExample_def)
  have rep: "replaceAt quoteExample [0, 0] (leadMarked ?qp) =
     Root [Element ''blockquote'' None (Some
             [Element ''p'' (Some [(''id'', PStr ''q''), (''class'', PStr ''lead'')]) (Some [Text ''quoted''])]),
           Element ''p'' None (Some [Text ''second''])]"
    by (simp add: quoteExample_def spread_def)
  have isp: "isPNode ?qp" by simp
  have A: "addLeadToFirstParagraph ?plain = ?plain"
    by (rule addLead_marks_only_first[of ?plain, THEN conjunct1, rule_format]) (use none in blast)
  have some: "\<exists>q m. nodeAt quoteExample q = Some m \<and> isPNode m"
    using at isp by blast
  have E: "\<exists>p n. nodeAt quoteExample p = Some n \<and> isPNode n \<and>
          (\<forall>q m. q < p \<and> nodeAt quoteExample q = Some m \<longrightarrow> \<not> isPNode m)"
    using addLead_marks_only_first[of quoteExample, THEN conjunct2, THEN conjunct1] some by (rule mp)
  have B: "addLeadToFirstParagraph quoteExample = replaceAt quoteExample [0, 0] (leadMarked ?qp)"
    by (rule addLead_marks_only_first[of quoteExample, THEN conjunct2, THEN conjunct2, rule_format])
      (intro conjI at isp first)
  show ?thesis using A B E at rep by simp
qed

text \<open>
  Claim C10. When the first paragraph in pre-order already has a class, after the pass
  its class is exactly lead: the old value is overwritten in place, no key is added
  and every other property keeps its value.
\<close>

theorem addLead_overwrites_class:
  assumes "nodeAt t p = Some (Element ''p'' (Some props) cs)"
    and "\<forall>q m. q < p \<and> nodeAt t q = Some m \<longrightarrow> \<not> isPNode m"
    and "map_of props ''class'' = Some old"
  shows "\<exists>props'. nodeAt (addLeadToFirstParagraph t) p = Some (Element ''p'' (Some props') cs) \<and>
           map_of props' ''class'' = Some (PStr ''lead'') \<and>
           map_of props' = (map_of props)(''class'' \<mapsto> PStr ''lead'') \<and>
           map fst props' = map fst props"
proof -
  let ?n = "Element ''p'' (Some props) cs"
  have "addLeadRun t = (True, replaceAt t p (leadMarked ?n))"
    by (rule addLeadRun_first) (use assms in auto)
  then have "nodeAt (addLeadToFirstParagraph t) p = Some (leadMarked ?n)"
    using assms(1) by (simp add: addLeadToFirstParagraph_def nodeAt_replaceAt)
  moreover have "''class'' \<in> fst ` set props" using assms(3) by (meson domI dom_map_of_conv_image_fst[THEN equalityD1, THEN subsetD] map_of_SomeD image_eqI fst_conv)
  ultimately show ?thesis
    by (auto simp: spread_def update_conv' update_keys intro!: exI[where x = "AList.update ''class'' (PStr ''lead'') props"])
qed

theorem addLead_overwrites_class_witness:
  "nodeAt quoteExample [0, 0]
     = Some (Element ''p'' (Some [(''id'', PStr ''q''), (''class'', PStr ''note'')]) (Some [Text ''quoted''])) \<and>
   (\<exists>props'. nodeAt (addLeadToFirstParagraph quoteExample) [0, 0] = Some (Element ''p'' (Some props') (Some [Text ''quoted''])) \<and>
      map_of props' ''class'' = Some (PStr ''lead'') \<and>
      map fst props' = [''id'', ''class''])"
proof -
  have at: "nodeAt quoteExample [0, 0] = Some (Element ''p'' (Some [(''id'', PStr ''q''), (''class'', PStr ''note'')]) (Some [Text ''quoted'']))"
    by (simp add: quoteExample_def)
  have first: "\<forall>q m. q < [0, 0] \<and> nodeAt quoteExample q = Some m \<longrightarrow> \<not> isPNode m"
    by (auto dest!: before_00 simp: quoteExample_def)
  have cls: "map_of [(''id'', PStr ''q''), (''class'', PStr ''note'')] ''class'' = Some (PStr ''note'')"
    by simp
  show ?thesis
    using addLead_overwrites_class[OF at first cls] at by auto
qed

section \<open>First-paragraph extraction\<close>

text \<open>
  Claim C4 as stated fails: the pass looks at the tree itself and at its direct
  children only. In the example the first paragraph in pre-order, the one lead-marking
  marks, is inside the blockquote at position [0, 0]; the pass returns the later
  paragraph at position [1]. When the only paragraph is nested the pass returns nothing.
\<close>

theorem getOnlyFirstPara_skips_nested:
  "nodeAt quoteExample [0, 0]
     = Some (Element ''p'' (Some [(''id'', PStr ''q''), (''class'', PStr ''note'')]) (Some [Text ''quoted''])) \<and>
   nodeAt (addLeadToFirstParagraph quoteExample) [0, 0]
     = Some (Element ''p'' (Some [(''id'', PStr ''q''), (''class'', PStr ''lead'')]) (Some [Text ''quoted''])) \<and>
   getOnlyFirstPara quoteExample = Some (Element ''p'' None (Some [Text ''second''])) \<and>
   getOnlyFirstPara (Root [Element ''blockquote'' None (Some [Element ''p'' None (Some [Text ''quoted''])])]) = None"
  by code_simp

text \<open>
  Claim C4, amended. The pass returns the tree itself when it is a paragraph; otherwise
  the first paragraph among the direct children of the tree, and nothing when no direct
  child is a paragraph, in particular when the tree contains no paragraph at all.
\<close>

theorem getOnlyFirstPara_direct_child:
  "(isPNode t \<longrightarrow> getOnlyFirstPara t = Some t) \<and>
   (\<not> isPNode t \<longrightarrow>
      (\<forall>i n. nodeAt t [i] = Some n \<and> isPNode n \<and>
              (\<forall>j m. j < i \<and> nodeAt t [j] = Some m \<longrightarrow> \<not> isPNode m) \<longrightarrow>
         getOnlyFirstPara t = Some n) \<and>
      ((\<forall>i n. nodeAt t [i] = Some n \<longrightarrow> \<not> isPNode n) \<longrightarrow> getOnlyFirstPara t = None)) \<and>
   ((\<forall>q n. nodeAt t q = Some n \<longrightarrow> \<not> isPNode n) \<longrightarrow> getOnlyFirstPara t = None)"
proof -
  have direct: "getOnlyFirstPara t = Some n"
    if "\<not> isPNode t" "nodeAt t [i] = Some n" "isPNode n"
       "\<forall>j m. j < i \<and> nodeAt t [j] = Some m \<longrightarrow> \<not> isPNode m" for i n
  proof -
    from that(2) obtain ks where ks: "childrenOf t = Some ks" "i < length ks" "ks ! i = n"
      by (auto split: option.splits if_splits)
    have "\<not> isPNode (ks ! j)" if "j < i" for j
    proof -
      have "nodeAt t [j] = Some (ks ! j)" using that ks by simp
      then show ?thesis
        using that \<open>\<forall>j m. j < i \<and> nodeAt t [j] = Some m \<longrightarrow> \<not> isPNode m\<close> by blast
    qed
    then have "find isPNode ks = Some (ks ! i)"
      using ks(2,3) that(3) by (auto simp: find_Some_iff)
    then show ?thesis using that(1) ks by (simp add: getOnlyFirstPara_def)
  qed
  have none: "getOnlyFirstPara t = None"
    if "\<not> isPNode t" "\<forall>i n. nodeAt t [i] = Some n \<longrightarrow> \<not> isPNode n"
  proof (cases "childrenOf t")
    case None
    then show ?thesis using that(1) by (simp add: getOnlyFirstPara_def)
  next
    case (Some ks)
    have "\<not> isPNode k" if "k \<in> set ks" for k
    proof -
      from that obtain i where "i < length ks" "ks ! i = k" by (auto simp: in_set_conv_nth)
      then have "nodeAt t [i] = Some k" using Some by simp
      then show ?thesis using \<open>\<forall>i n. nodeAt t [i] = Some n \<longrightarrow> \<not> isPNode n\<close> by blast
    qed
    then have "find isPNode ks = None" by (simp add: find_None_iff)
    then show ?thesis using that(1) Some by (simp add: getOnlyFirstPara_def)
  qed
  have nowhere: "getOnlyFirstPara t = None" if a: "\<forall>q n. nodeAt t q = Some n \<longrightarrow> \<not> isPNode n"
  proof (rule none)
    show "\<not> isPNode t" using a[rule_format, of "[]" t] by simp
    show "\<forall>i n. nodeAt t [i] = Some n \<longrightarrow> \<not> isPNode n" using a by blast
  qed
  show ?thesis
    using direct none nowhere by (auto simp: getOnlyFirstPara_def)
qed

theorem getOnlyFirstPara_direct_child_witness:
  "getOnlyFirstPara (Element ''p'' None (Some [Text ''alone''])) = Some (Element ''p'' None (Some [Text ''alone''])) \<and>
   nodeAt quoteExample [1] = Some (Element ''p'' None (Some [Text ''second''])) \<and>
   getOnlyFirstPara quoteExample = Some (Element ''p'' None (Some [Text ''second''])) \<and>
   getOnlyFirstPara (Root [Element ''blockquote'' None (Some [Element ''p'' None (Some [Text ''quoted''])])]) = None \<and>
   getOnlyFirstPara (Root [Text ''no paragraph'', Element ''hr'' None None]) = None"
proof -
  let ?plain = "Root [Text ''no paragraph'', Element ''hr'' None None]"
  let ?quote = "Root [Element ''blockquote'' None (Some [Element ''p'' None (Some [Text ''quoted''])])]"
  let ?second = "Element ''p'' None (Some [Text ''second''])"
  let ?alone = "Element ''p'' None (Some [Text ''alone''])"
  have A: "getOnlyFirstPara ?alone = Some ?alone"
    by (rule getOnlyFirstPara_direct_child[of ?alone, THEN conjunct1, rule_format]) simp
  have at: "nodeAt quoteExample [1] = Some ?second" by (simp add: quoteExample_def)
  have before: "\<forall>j m. j < 1 \<and> nodeAt quoteExample [j] = Some m \<longrightarrow> \<not> isPNode m"
    by (auto simp: quoteExample_def)
  have B: "getOnlyFirstPara quoteExample = Some ?second"
    by (rule getOnlyFirstPara_direct_child[of quoteExample, THEN conjunct2, THEN conjunct1, rule_format, THEN conjunct1, rule_format, of 1])
       (use at before in \<open>auto simp: quoteExample_def\<close>)
  have direct: "\<forall>i n. nodeAt ?quote [i] = Some n \<longrightarrow> \<not> isPNode n"
    by (auto split: if_splits simp: nth_Cons')
  have D: "getOnlyFirstPara ?quote = None"
    by (rule getOnlyFirstPara_direct_child[of ?quote, THEN conjunct2, THEN conjunct1, rule_format, THEN conjunct2, rule_format])
       (use direct in auto)
  have none: "\<forall>q m. nodeAt ?plain q = Some m \<longrightarrow> \<not> isPNode m"
  proof (intro allI impI)
    fix q m assume "nodeAt ?plain q = Some m"
    then show "\<not> isPNode m"
      by (cases q; cases "tl q") (auto split: if_splits simp: nth_Cons')
  qed
  have C: "getOnlyFirstPara ?plain = None"
    by (rule getOnlyFirstPara_direct_child[of ?plain, THEN conjunct2, THEN conjunct2, rule_format]) (use none in blast)
  show ?thesis using A B C D at by simp
qed

section \<open>Link wrapping\<close>

lemma wrapLinksInSpans_children:
  "\<not> isAnchorNode t \<Longrightarrow> childrenOf (wrapLinksInSpans t) = map_option (map wrapLinksInSpans) (childrenOf t)"
  by (cases t) auto

lemma wrapLinksInSpans_at:
  assumes "nodeAt t p = Some a" "isAnchorNode a"
    and "\<And>q m. strict_prefix q p \<Longrightarrow> nodeAt t q = Some m \<Longrightarrow> \<not> isAnchorNode m"
  shows "nodeAt (wrapLinksInSpans t) p = Some (innerLink a)"
  using assms
proof (induction p arbitrary: t)
  case Nil
  then show ?case by (cases t) auto
next
  case (Cons i p)
  have na: "\<not> isAnchorNode t" using Cons.prems(3)[of "[]" t] by simp
  from Cons.prems(1) obtain ks where ks: "childrenOf t = Some ks" "i < length ks" "nodeAt (ks ! i) p = Some a"
    by (auto split: option.splits if_splits)
  have "nodeAt (wrapLinksInSpans (ks ! i)) p = Some (innerLink a)"
  proof (rule Cons.IH[OF ks(3) Cons.prems(2)])
    fix q m assume "strict_prefix q p" "nodeAt (ks ! i) q = Some m"
    then have "strict_prefix (i # q) (i # p)" "nodeAt t (i # q) = Some m" using ks by simp_all
    then show "\<not> isAnchorNode m" using Cons.prems(3) by blast
  qed
  then show ?case using ks na by (simp add: wrapLinksInSpans_children)
qed

text \<open>
  Claim C6 as stated fails: the pass wraps an anchor and does not look inside it, so an
  anchor nested in an anchor keeps the outer anchor as its parent.
\<close>

theorem wrapLinksInSpans_misses_nested:
  "nodeAt nestedLinks [0, 0, 0] = Some (Element ''a'' (Some [(''href'', PStr ''/inner'')]) (Some [Text ''inner''])) \<and>
   nodeAt (wrapLinksInSpans nestedLinks) [0, 0, 0, 0]
     = Some (Element ''a'' (Some [(''href'', PStr ''/inner'')]) (Some [Text ''inner''])) \<and>
   nodeAt (wrapLinksInSpans nestedLinks) [0, 0, 0]
     = Some (Element ''a'' (Some [(''href'', PStr ''/outer'')]) (Some
              [Element ''a'' (Some [(''href'', PStr ''/inner'')]) (Some [Text ''inner''])])) \<and>
   wrapLinksInSpans nestedLinks =
     Root [Element ''svg'' None (Some
       [Element ''span'' (Some [(''class'', PStr ''inner-link'')]) (Some
         [Element ''a'' (Some [(''href'', PStr ''/outer'')]) (Some
            [Element ''a'' (Some [(''href'', PStr ''/inner'')]) (Some [Text ''inner''])])])])]"
  by code_simp

text \<open>
  Claim C6, amended. For every anchor of the input that is not inside another anchor,
  the result has at the anchor's position a new span with class inner-link whose only
  child is that anchor, unchanged: the anchor is wrapped exactly once and the wrapper
  is not wrapped again.
\<close>

theorem wrapLinksInSpans_wraps_once:
  assumes "nodeAt t p = Some a" and "isAnchorNode a"
    and "\<forall>q m. strict_prefix q p \<and> nodeAt t q = Some m \<longrightarrow> \<not> isAnchorNode m"
  shows "nodeAt (wrapLinksInSpans t) p
           = Some (Element ''span'' (Some [(''class'', PStr ''inner-link'')]) (Some [a])) \<and>
         nodeAt (wrapLinksInSpans t) (p @ [0]) = Some a"
proof -
  have w: "nodeAt (wrapLinksInSpans t) p = Some (innerLink a)"
    by (rule wrapLinksInSpans_at) (use assms in blast)+
  have "nodeAt u (p @ [0]) = Some a" if "nodeAt u p = Some (innerLink a)" for u
    using that
  proof (induction p arbitrary: u)
    case Nil
    then show ?case by (simp add: innerLink_def)
  next
    case (Cons i p)
    then show ?case by (auto split: option.splits if_splits)
  qed
  then show ?thesis using w by (simp add: innerLink_def)
qed

theorem wrapLinksInSpans_wraps_once_witness:
  "nodeAt linkExample [0, 1] = Some (Element ''a'' (Some [(''href'', PStr ''/docs'')]) (Some [Text ''the docs''])) \<and>
   nodeAt (wrapLinksInSpans linkExample) [0, 1]
     = Some (Element ''span'' (Some [(''class'', PStr ''inner-link'')])
              (Some [Element ''a'' (Some [(''href'', PStr ''/docs'')]) (Some [Text ''the docs''])])) \<and>
   nodeAt (wrapLinksInSpans linkExample) [0, 1, 0]
     = Some (Element ''a'' (Some [(''href'', PStr ''/docs'')]) (Some [Text ''the docs'']))"
proof -
  let ?a = "Element ''a'' (Some [(''href'', PStr ''/docs'')]) (Some [Text ''the docs''])"
  have at: "nodeAt linkExample [0, 1] = Some ?a" by (simp add: linkExample_def)
  have isa: "isAnchorNode ?a" by simp
  have above: "\<forall>q m. strict_prefix q [0, 1] \<and> nodeAt linkExample q = Some m \<longrightarrow> \<not> isAnchorNode m"
  proof (intro allI impI)
    fix q m assume a: "strict_prefix q [0, 1::nat] \<and> nodeAt linkExample q = Some m"
    then have "q = [] \<or> q = [0]"
      by (cases q; cases "tl q") (auto simp: strict_prefix_def)
    then show "\<not> isAnchorNode m" using a by (auto simp: linkExample_def)
  qed
  show ?thesis using wrapLinksInSpans_wraps_once[OF at isa above] at by simp
qed

section \<open>SVG path normalization\<close>

lemma collapse_no_space: "list_all (\<lambda>c. \<not> isWhitespace c) s \<Longrightarrow> collapseWhitespace s = s"
  by (induction s) auto

lemma collapse_run:
  assumes "w \<noteq> []" "list_all isWhitespace w" "v = [] \<or> \<not> isWhitespace (hd v)"
  shows "collapseWhitespace (w @ v) = CHR '' '' # collapseWhitespace v"
proof -
  obtain c w' where w: "w = c # w'" using assms(1) by (cases w) auto
  have "dropWhile isWhitespace (w' @ v) = v"
    using assms(2,3) w by (cases v) (auto simp: list_all_iff dropWhile_append)
  then show ?thesis using assms(2) w by simp
qed

lemma collapse_between:
  assumes "u = [] \<or> \<not> isWhitespace (last u)" "w \<noteq> []" "list_all isWhitespace w"
    "v = [] \<or> \<not> isWhitespace (hd v)"
  shows "collapseWhitespace (u @ w @ v) = collapseWhitespace u @ CHR '' '' # collapseWhitespace v"
  using assms(1)
proof (induction u rule: collapseWhitespace.induct)
  case 1
  then show ?case using collapse_run[OF assms(2,3,4)] by simp
next
  case (2 c cs)
  show ?case
  proof (cases "isWhitespace c")
    case False
    have "cs = [] \<or> \<not> isWhitespace (last cs)" using 2(3) by (auto split: if_splits)
    then show ?thesis using False 2(2) by simp
  next
    case True
    then have cs: "cs \<noteq> []" "\<not> isWhitespace (last cs)" using 2(3) by (auto split: if_splits)
    then have ex: "last cs \<in> set cs" by simp
    have d: "dropWhile isWhitespace (cs @ w @ v) = dropWhile isWhitespace cs @ w @ v"
      using ex cs(2) by (simp add: dropWhile_append1)
    have ne: "dropWhile isWhitespace cs \<noteq> []"
      using ex cs(2) by (auto simp: dropWhile_eq_Nil_conv)
    then have "last (dropWhile isWhitespace cs) = last cs"
      by (metis append_self_conv last_appendR takeWhile_dropWhile_id)
    then have "dropWhile isWhitespace cs = [] \<or> \<not> isWhitespace (last (dropWhile isWhitespace cs))"
      using cs(2) by simp
    then show ?thesis using True 2(1) d by simp
  qed
qed

lemma collapse_head:
  "s = [] \<or> \<not> isWhitespace (hd s) \<Longrightarrow>
   collapseWhitespace s = [] \<or> \<not> isWhitespace (hd (collapseWhitespace s))"
  by (cases s) auto

lemma collapse_idem: "collapseWhitespace (collapseWhitespace s) = collapseWhitespace s"
proof (induction s rule: collapseWhitespace.induct)
  case 1
  then show ?case by simp
next
  case (2 c cs)
  show ?case
  proof (cases "isWhitespace c")
    case False
    then show ?thesis using 2(2) by simp
  next
    case True
    let ?r = "dropWhile isWhitespace cs"
    have "?r = [] \<or> \<not> isWhitespace (hd ?r)" by (metis hd_dropWhile)
    then have h: "collapseWhitespace ?r = [] \<or> \<not> isWhitespace (hd (collapseWhitespace ?r))"
      by (rule collapse_head)
    have "dropWhile isWhitespace (collapseWhitespace ?r) = collapseWhitespace ?r"
      using h by (cases "collapseWhitespace ?r") auto
    moreover have "isWhitespace CHR '' ''" by (simp add: isWhitespace_def)
    ultimately show ?thesis using True 2(1) by simp
  qed
qed

lemma collapse_nonempty: "d \<noteq> [] \<Longrightarrow> collapseWhitespace d \<noteq> []"
  by (cases d) auto

lemma mapE_nth:
  "mapE f ks = Inr ks' \<Longrightarrow> length ks' = length ks \<and> (\<forall>i < length ks. f (ks ! i) = Inr (ks' ! i))"
proof (induction ks arbitrary: ks')
  case Nil
  then show ?case by simp
next
  case (Cons k ks)
  then show ?case by (auto split: sum.splits simp: nth_Cons')
qed

lemma mapE_fixed:
  assumes "mapE f ks = Inr ks'" "\<And>k k'. k \<in> set ks \<Longrightarrow> f k = Inr k' \<Longrightarrow> f k' = Inr k'"
  shows "mapE f ks' = Inr ks'"
  using assms
proof (induction ks arbitrary: ks')
  case Nil
  then show ?case by simp
next
  case (Cons k ks)
  from Cons.prems(1) obtain k' ks'' where a: "f k = Inr k'" "mapE f ks = Inr ks''" "ks' = k' # ks''"
    by (auto split: sum.splits)
  have "f k' = Inr k'" using Cons.prems(2)[of k k'] a(1) by simp
  moreover have "mapE f ks'' = Inr ks''"
  proof (rule Cons.IH[OF a(2)])
    fix x x' assume "x \<in> set ks" "f x = Inr x'"
    then show "f x' = Inr x'" using Cons.prems(2)[of x x'] by simp
  qed
  ultimately show ?case using a(3) by simp
qed

lemma mapE_total:
  assumes "\<And>k. k \<in> set ks \<Longrightarrow> \<exists>k'. f k = Inr k'"
  shows "\<exists>ks'. mapE f ks = Inr ks'"
  using assms
proof (induction ks)
  case Nil
  then show ?case by simp
next
  case (Cons k ks)
  then obtain k' where "f k = Inr k'" by auto
  moreover obtain ks' where "mapE f ks = Inr ks'" using Cons by auto
  ultimately show ?case by simp
qed

lemma fixSvgPaths_parent:
  assumes "\<not> isPathNode t"
  shows "fixSvgPaths t =
     (case childrenOf t of
        None \<Rightarrow> Inr t
      | Some ks \<Rightarrow> (case mapE fixSvgPaths ks of Inl e \<Rightarrow> Inl e | Inr ks' \<Rightarrow> Inr (withChildren t ks')))"
  using assms by (cases t) (auto split: option.splits sum.splits)

lemma fixSvgPaths_path:
  assumes "fixSvgPaths (Element ''path'' ps cs) = Inr t'" "getProp ps ''d'' = Some (PStr d)"
  shows "\<exists>ps'. t' = Element ''path'' ps' cs \<and> getProp ps' ''d'' = Some (PStr (collapseWhitespace d)) \<and>
           (\<forall>key. key \<noteq> ''d'' \<longrightarrow> getProp ps' key = getProp ps key)"
proof (cases "d = []")
  case True
  then show ?thesis using assms by auto
next
  case False
  then have "t' = Element ''path'' (Some (AList.update ''d'' (PStr (collapseWhitespace d)) (spread ps))) cs"
    using assms by simp
  moreover have "getProp ps key = map_of (spread ps) key" for key
    by (simp add: getProp_def spread_def split: option.splits)
  ultimately show ?thesis by (simp add: getProp_def update_conv')
qed

lemma fixSvgPaths_at:
  assumes "fixSvgPaths t = Inr t'" "nodeAt t p = Some (Element ''path'' ps cs)"
    "getProp ps ''d'' = Some (PStr d)"
    "\<And>q m. strict_prefix q p \<Longrightarrow> nodeAt t q = Some m \<Longrightarrow> \<not> isPathNode m"
  shows "\<exists>ps'. nodeAt t' p = Some (Element ''path'' ps' cs) \<and>
           getProp ps' ''d'' = Some (PStr (collapseWhitespace d)) \<and>
           (\<forall>key. key \<noteq> ''d'' \<longrightarrow> getProp ps' key = getProp ps key)"
  using assms(1,2,4)
proof (induction p arbitrary: t t')
  case Nil
  then show ?case using fixSvgPaths_path[OF _ assms(3)] by simp
next
  case (Cons i p)
  have na: "\<not> isPathNode t" using Cons.prems(3)[of "[]" t] by simp
  from Cons.prems(2) obtain ks where ks: "childrenOf t = Some ks" "i < length ks"
      "nodeAt (ks ! i) p = Some (Element ''path'' ps cs)"
    by (auto split: option.splits if_splits)
  from Cons.prems(1) obtain ks' where ks': "mapE fixSvgPaths ks = Inr ks'" "t' = withChildren t ks'"
    using na ks(1) by (auto simp: fixSvgPaths_parent split: sum.splits)
  have len: "length ks' = length ks" and step: "fixSvgPaths (ks ! i) = Inr (ks' ! i)"
    using mapE_nth[OF ks'(1)] ks(2) by auto
  have "\<exists>ps'. nodeAt (ks' ! i) p = Some (Element ''path'' ps' cs) \<and>
           getProp ps' ''d'' = Some (PStr (collapseWhitespace d)) \<and>
           (\<forall>key. key \<noteq> ''d'' \<longrightarrow> getProp ps' key = getProp ps key)"
  proof (rule Cons.IH[OF step ks(3)])
    fix q m assume "strict_prefix q p" "nodeAt (ks ! i) q = Some m"
    then have "strict_prefix (i # q) (i # p)" "nodeAt t (i # q) = Some m" using ks by simp_all
    then show "\<not> isPathNode m" using Cons.prems(3) by blast
  qed
  moreover have "childrenOf t' = Some ks'" using ks'(2) ks(1) by (cases t) auto
  ultimately show ?case using len ks(2) by simp
qed

lemma fixSvgPaths_idem: "fixSvgPaths t = Inr t' \<Longrightarrow> fixSvgPaths t' = Inr t'"
proof (induction t arbitrary: t' rule: measure_induct_rule[where f = size])
  case (less t)
  show ?case
  proof (cases "isPathNode t")
    case True
    then obtain ps cs where t: "t = Element ''path'' ps cs" by (cases t) auto
    show ?thesis
    proof (cases "getProp ps ''d''")
      case None
      then have "t' = t" using less.prems t by simp
      then show ?thesis using less.prems by simp
    next
      case (Some pv)
      show ?thesis
      proof (cases pv)
        case (PList ds)
        then show ?thesis using less.prems t Some by simp
      next
        case (PStr d)
        show ?thesis
        proof (cases "d = []")
          case True
          then have "t' = t" using less.prems t Some PStr by simp
          then show ?thesis using less.prems by simp
        next
          case False
          then have t': "t' = Element ''path'' (Some (AList.update ''d'' (PStr (collapseWhitespace d)) (spread ps))) cs"
            using less.prems t Some PStr by simp
          show ?thesis
            using False unfolding t'
            by (simp add: getProp_def update_conv' collapse_nonempty collapse_idem spread_def)
        qed
      qed
    qed
  next
    case False
    show ?thesis
    proof (cases "childrenOf t")
      case None
      then show ?thesis using less.prems False by (simp add: fixSvgPaths_parent)
    next
      case (Some ks)
      from less.prems obtain ks' where ks': "mapE fixSvgPaths ks = Inr ks'" "t' = withChildren t ks'"
        using False Some by (auto simp: fixSvgPaths_parent split: sum.splits)
      have "mapE fixSvgPaths ks' = Inr ks'"
        using ks'(1)
      proof (rule mapE_fixed)
        fix k k' assume "k \<in> set ks" "fixSvgPaths k = Inr k'"
        then show "fixSvgPaths k' = Inr k'" using less.IH[of k k'] Some by (auto intro: size_child)
      qed
      moreover have "\<not> isPathNode t'" "childrenOf t' = Some ks'" "withChildren t' ks' = t'"
        using ks'(2) False Some by (cases t; auto)+
      ultimately show ?thesis by (simp add: fixSvgPaths_parent)
    qed
  qed
qed

lemma fixSvgPaths_total: "pathDataIsText t \<Longrightarrow> \<exists>t'. fixSvgPaths t = Inr t'"
proof (induction t rule: measure_induct_rule[where f = size])
  case (less t)
  show ?case
  proof (cases "isPathNode t")
    case True
    then obtain ps cs where t: "t = Element ''path'' ps cs" by (cases t) auto
    then show ?thesis using less.prems by (auto split: option.splits propval.splits)
  next
    case False
    show ?thesis
    proof (cases "childrenOf t")
      case None
      then show ?thesis using False by (simp add: fixSvgPaths_parent)
    next
      case (Some ks)
      have all: "list_all pathDataIsText ks" using less.prems False Some by (cases t) auto
      have "\<exists>ks'. mapE fixSvgPaths ks = Inr ks'"
      proof (rule mapE_total)
        fix k assume "k \<in> set ks"
        then show "\<exists>k'. fixSvgPaths k = Inr k'"
          using less.IH[of k] Some all by (auto simp: list_all_iff intro: size_child)
      qed
      then show ?thesis using False Some by (auto simp: fixSvgPaths_parent)
    qed
  qed
qed

text \<open>
  The older variant of the pass (src/unnamed/part_000) replaces each newline by a space
  and leaves the other white space alone.
\<close>

lemma replaceAllNewlines_pathData: "replaceAllNewlines pathData = ''M10 10    L20   20''"
  by code_simp

text \<open>
  Claim C7 as stated fails: the pass handles a path element and does not look inside
  it, so a path element nested in a path element keeps its runs of white space.
\<close>

theorem fixSvgPaths_skips_nested_path:
  "nodeAt nestedPaths [0, 0, 0] = Some (Element ''path'' (Some [(''d'', PStr ''M2   2'')]) (Some [])) \<and>
   collapseWhitespace ''M2   2'' = ''M2 2'' \<and>
   fixSvgPaths nestedPaths =
     Inr (Root [Element ''svg'' None (Some
       [Element ''path'' (Some [(''d'', PStr ''M0 0 L1 1'')]) (Some
          [Element ''path'' (Some [(''d'', PStr ''M2   2'')]) (Some [])])])])"
  by code_simp

text \<open>
  Claim C7, amended. Collapsing leaves a string without white space as it is and turns
  every maximal run of white space, between its neighbours, into exactly one space; the
  path data of the example becomes \<open>M10 10 L20 20\<close>. The pass completes on every tree
  whose path elements have a string (or nothing) as \<open>d\<close>. When it completes, running it
  again on the result changes nothing, and every path element of the input that is not
  inside another path element and has a string \<open>d\<close> is found at the same position with
  \<open>d\<close> collapsed, its children and its other properties as they were.
\<close>

theorem fixSvgPaths_collapses_whitespace:
  "(list_all (\<lambda>c. \<not> isWhitespace c) s \<longrightarrow> collapseWhitespace s = s) \<and>
   ((u = [] \<or> \<not> isWhitespace (last u)) \<and> w \<noteq> [] \<and> list_all isWhitespace w \<and>
    (v = [] \<or> \<not> isWhitespace (hd v)) \<longrightarrow>
      collapseWhitespace (u @ w @ v) = collapseWhitespace u @ '' '' @ collapseWhitespace v) \<and>
   collapseWhitespace pathData = ''M10 10 L20 20'' \<and>
   (pathDataIsText t \<longrightarrow> (\<exists>t'. fixSvgPaths t = Inr t')) \<and>
   (\<forall>t'. fixSvgPaths t = Inr t' \<longrightarrow>
      fixSvgPaths t' = Inr t' \<and>
      (\<forall>p ps cs d.
         nodeAt t p = Some (Element ''path'' ps cs) \<and> getProp ps ''d'' = Some (PStr d) \<and>
         (\<forall>q m. strict_prefix q p \<and> nodeAt t q = Some m \<longrightarrow> \<not> isPathNode m) \<longrightarrow>
         (\<exists>ps'. nodeAt t' p = Some (Element ''path'' ps' cs) \<and>
                 getProp ps' ''d'' = Some (PStr (collapseWhitespace d)) \<and>
                 (\<forall>key. key \<noteq> ''d'' \<longrightarrow> getProp ps' key = getProp ps key))))"
proof (intro conjI impI allI)
  assume "list_all (\<lambda>c. \<not> isWhitespace c) s"
  then show "collapseWhitespace s = s" by (rule collapse_no_space)
next
  assume "(u = [] \<or> \<not> isWhitespace (last u)) \<and> w \<noteq> [] \<and> list_all isWhitespace w \<and>
    (v = [] \<or> \<not> isWhitespace (hd v))"
  then show "collapseWhitespace (u @ w @ v) = collapseWhitespace u @ '' '' @ collapseWhitespace v"
    using collapse_between[of u w v] by simp
next
  show "collapseWhitespace pathData = ''M10 10 L20 20''" by code_simp
next
  assume "pathDataIsText t"
  then show "\<exists>t'. fixSvgPaths t = Inr t'" by (rule fixSvgPaths_total)
next
  fix t' assume "fixSvgPaths t = Inr t'"
  then show "fixSvgPaths t' = Inr t'" by (rule fixSvgPaths_idem)
next
  fix t' p ps cs d
  assume a: "fixSvgPaths t = Inr t'"
    and b: "nodeAt t p = Some (Element ''path'' ps cs) \<and> getProp ps ''d'' = Some (PStr d) \<and>
         (\<forall>q m. strict_prefix q p \<and> nodeAt t q = Some m \<longrightarrow> \<not> isPathNode m)"
  show "\<exists>ps'. nodeAt t' p = Some (Element ''path'' ps' cs) \<and>
                 getProp ps' ''d'' = Some (PStr (collapseWhitespace d)) \<and>
                 (\<forall>key. key \<noteq> ''d'' \<longrightarrow> getProp ps' key = getProp ps key)"
    by (rule fixSvgPaths_at[OF a]) (use b in blast)+
qed

theorem fixSvgPaths_collapses_whitespace_witness:
  "collapseWhitespace (''M10 10'' @ [CHR 0x0A, CHR 0x0A, CHR '' '', CHR '' ''] @ ''L20   20'')
     = collapseWhitespace ''M10 10'' @ '' '' @ collapseWhitespace ''L20   20'' \<and>
   collapseWhitespace ''M10'' = ''M10'' \<and>
   pathDataIsText svgExample \<and>
   (\<exists>t'. fixSvgPaths svgExample = Inr t') \<and>
   fixSvgPaths svgExample =
     Inr (Root [Element ''svg'' None (Some
       [Element ''path'' (Some [(''d'', PStr ''M10 10 L20 20''), (''fill'', PStr ''red'')]) (Some [])])]) \<and>
   fixSvgPaths (Root [Element ''svg'' None (Some
       [Element ''path'' (Some [(''d'', PStr ''M10 10 L20 20''), (''fill'', PStr ''red'')]) (Some [])])]) =
     Inr (Root [Element ''svg'' None (Some
       [Element ''path'' (Some [(''d'', PStr ''M10 10 L20 20''), (''fill'', PStr ''red'')]) (Some [])])]) \<and>
   nodeAt svgExample [0, 0]
     = Some (Element ''path'' (Some [(''d'', PStr pathData), (''fill'', PStr ''red'')]) (Some [])) \<and>
   (\<exists>ps'. nodeAt (Root [Element ''svg'' None (Some
       [Element ''path'' (Some [(''d'', PStr ''M10 10 L20 20''), (''fill'', PStr ''red'')]) (Some [])])]) [0, 0]
              = Some (Element ''path'' ps' (Some [])) \<and>
           getProp ps' ''d'' = Some (PStr (collapseWhitespace pathData)) \<and>
           getProp ps' ''fill'' = Some (PStr ''red''))"
proof -
  let ?out = "Root [Element ''svg'' None (Some
       [Element ''path'' (Some [(''d'', PStr ''M10 10 L20 20''), (''fill'', PStr ''red'')]) (Some [])])]"
  let ?ps = "Some [(''d'', PStr pathData), (''fill'', PStr ''red'')]"
  note inst = fixSvgPaths_collapses_whitespace[of "''M10''" "''M10 10''"
      "[CHR 0x0A, CHR 0x0A, CHR '' '', CHR '' '']" "''L20   20''" svgExample]
  have h1: "list_all (\<lambda>c. \<not> isWhitespace c) ''M10''" by (simp add: isWhitespace_def)
  have h2: "(''M10 10'' = [] \<or> \<not> isWhitespace (last ''M10 10'')) \<and>
      [CHR 0x0A, CHR 0x0A, CHR '' '', CHR '' ''] \<noteq> [] \<and>
      list_all isWhitespace [CHR 0x0A, CHR 0x0A, CHR '' '', CHR '' ''] \<and>
      (''L20   20'' = [] \<or> \<not> isWhitespace (hd ''L20   20''))"
    by (simp add: isWhitespace_def)
  have okText: "pathDataIsText svgExample" by code_simp
  have run: "fixSvgPaths svgExample = Inr ?out" by code_simp
  have at: "nodeAt svgExample [0, 0] = Some (Element ''path'' ?ps (Some []))"
    by (simp add: svgExample_def)
  have d: "getProp ?ps ''d'' = Some (PStr pathData)" by (simp add: getProp_def)
  have above: "\<forall>q m. strict_prefix q [0, 0] \<and> nodeAt svgExample q = Some m \<longrightarrow> \<not> isPathNode m"
  proof (intro allI impI)
    fix q m assume a: "strict_prefix q [0, 0::nat] \<and> nodeAt svgExample q = Some m"
    then have "q = [] \<or> q = [0]"
      by (cases q; cases "tl q") (auto simp: strict_prefix_def)
    then show "\<not> isPathNode m" using a by (auto simp: svgExample_def)
  qed
  have A: "collapseWhitespace ''M10'' = ''M10''"
    using inst[THEN conjunct1] h1 by blast
  have B: "collapseWhitespace (''M10 10'' @ [CHR 0x0A, CHR 0x0A, CHR '' '', CHR '' ''] @ ''L20   20'')
     = collapseWhitespace ''M10 10'' @ '' '' @ collapseWhitespace ''L20   20''"
    using inst[THEN conjunct2, THEN conjunct1] h2 by blast
  have T: "\<exists>t'. fixSvgPaths svgExample = Inr t'"
    using inst[THEN conjunct2, THEN conjunct2, THEN conjunct2, THEN conjunct1] okText by (rule mp)
  note tree = inst[THEN conjunct2, THEN conjunct2, THEN conjunct2, THEN conjunct2, rule_format, OF run]
  have C: "fixSvgPaths ?out = Inr ?out" using tree by blast
  have P: "\<exists>ps'. nodeAt ?out [0, 0] = Some (Element ''path'' ps' (Some [])) \<and>
           getProp ps' ''d'' = Some (PStr (collapseWhitespace pathData)) \<and>
           (\<forall>key. key \<noteq> ''d'' \<longrightarrow> getProp ps' key = getProp ?ps key)"
    by (rule tree[THEN conjunct2, rule_format, of "[0, 0]" ?ps "Some []" pathData])
       (intro conjI at d above)
  have fill: "getProp ?ps ''fill'' = Some (PStr ''red'')" by (simp add: getProp_def)
  have P': "\<exists>ps'. nodeAt ?out [0, 0] = Some (Element ''path'' ps' (Some [])) \<and>
           getProp ps' ''d'' = Some (PStr (collapseWhitespace pathData)) \<and>
           getProp ps' ''fill'' = Some (PStr ''red'')"
  proof -
    from P obtain ps' where ps': "nodeAt ?out [0, 0] = Some (Element ''path'' ps' (Some []))"
        "getProp ps' ''d'' = Some (PStr (collapseWhitespace pathData))"
        "\<forall>key. key \<noteq> ''d'' \<longrightarrow> getProp ps' key = getProp ?ps key"
      by blast
    have "getProp ps' ''fill'' = getProp ?ps ''fill''" using ps'(3) by simp
    then show ?thesis using ps'(1,2) fill by metis
  qed
  show ?thesis
    by (intro conjI B A okText T run C at P')
qed

section \<open>Embedded media without metadata\<close>

lemma mapE_append:
  "mapE f (xs @ ys) =
     (case mapE f xs of
        Inl e \<Rightarrow> Inl e
      | Inr xs' \<Rightarrow> (case mapE f ys of Inl e \<Rightarrow> Inl e | Inr ys' \<Rightarrow> Inr (xs' @ ys')))"
  by (induction xs) (auto split: sum.splits)

text \<open>
  Claim C8. A paragraph whose only child is an anchor with a non-empty href equal to
  the anchor's text, for which the lookup resolves to null, is returned as it is, with
  no error; as a child of the root it stays at its position, between the results of
  the children before and after it.
\<close>

theorem replaceFreeLink_missing_metadata:
  assumes "para = Element ''p'' ps (Some [Element ''a'' aps (Some (Text href # others))])"
    and "getProp aps ''href'' = Some (PStr href)" and "href \<noteq> []"
    and "getOEmbed x href = Inr None"
  shows "replaceFreeLinkWithOEmbed x para = Inr para \<and>
         (\<forall>before after before' after'.
            mapE (replaceFreeLinkWithOEmbed x) before = Inr before' \<and>
            mapE (replaceFreeLinkWithOEmbed x) after = Inr after' \<longrightarrow>
            replaceFreeLinkWithOEmbed x (Root (before @ para # after))
              = Inr (Root (before' @ para # after')) \<and>
            length before' = length before)"
proof -
  have one: "replaceFreeLinkWithOEmbed x para = Inr para"
    using assms by simp
  show ?thesis
  proof (intro conjI allI impI)
    show "replaceFreeLinkWithOEmbed x para = Inr para" by (rule one)
  next
    fix before after before' after'
    assume a: "mapE (replaceFreeLinkWithOEmbed x) before = Inr before' \<and>
            mapE (replaceFreeLinkWithOEmbed x) after = Inr after'"
    then show "replaceFreeLinkWithOEmbed x (Root (before @ para # after))
              = Inr (Root (before' @ para # after'))"
      using one by (simp add: mapE_append)
    show "length before' = length before" using a mapE_nth by blast
  qed
qed

theorem replaceFreeLink_missing_metadata_witness:
  "replaceFreeLinkWithOEmbed noMetadata freeLink = Inr freeLink \<and>
   replaceFreeLinkWithOEmbed noMetadata (Root [Text ''intro'', freeLink, Element ''hr'' None None])
     = Inr (Root [Text ''intro'', freeLink, Element ''hr'' None None])"
proof -
  have p: "freeLink = Element ''p'' None (Some
     [Element ''a'' (Some [(''href'', PStr ''https://example.com/v'')]) (Some (Text ''https://example.com/v'' # []))])"
    by (simp add: freeLink_def)
  have h: "getProp (Some [(''href'', PStr ''https://example.com/v'')]) ''href'' = Some (PStr ''https://example.com/v'')"
    by (simp add: getProp_def)
  have ne: "''https://example.com/v'' \<noteq> []" by simp
  have g: "getOEmbed noMetadata ''https://example.com/v'' = Inr None" by (simp add: noMetadata_def)
  note inst = replaceFreeLink_missing_metadata[OF p h ne g]
  have b: "mapE (replaceFreeLinkWithOEmbed noMetadata) [Text ''intro''] = Inr [Text ''intro'']"
    "mapE (replaceFreeLinkWithOEmbed noMetadata) [Element ''hr'' None None] = Inr [Element ''hr'' None None]"
    by simp_all
  have "replaceFreeLinkWithOEmbed noMetadata (Root ([Text ''intro''] @ freeLink # [Element ''hr'' None None]))
     = Inr (Root ([Text ''intro''] @ freeLink # [Element ''hr'' None None]))"
    using inst[THEN conjunct2, rule_format, of "[Text ''intro'']" "[Text ''intro'']" "[Element ''hr'' None None]" "[Element ''hr'' None None]"] b
    by blast
  then show ?thesis using inst[THEN conjunct1] by simp
qed

text \<open>With metadata of type photo the paragraph becomes the figure card.\<close>

lemma replaceFreeLink_photo_card:
  "replaceFreeLinkWithOEmbed photoMetadata (Root [freeLink]) =
     Inr (Root [Element ''figure'' (Some [(''class'', PStr ''oembed'')]) (Some
       [Element ''figcaption'' None (Some
          [Element ''cite'' None (Some
             [Element ''a'' (Some [(''href'', PStr ''https://example.com/v''), (''title'', PStr ''T'')])
                (Some [Text ''https://example.com/v''])]),
           Element ''p'' (Some [(''class'', PStr ''title'')]) (Some [Text ''T''])])])])"
  by code_simp


end
